theory Spec2Isabelle
  imports Main
begin

section \<open>Data model (core/types, as used by TaskManager, StateManager and utils)\<close>

text \<open>
  \<^verbatim>\<open>TaskId\<close> is \<^verbatim>\<open>string | number\<close>: the tests use string ids, \<^verbatim>\<open>_generateId\<close> produces
  numbers. JavaScript's \<^verbatim>\<open>===\<close> never identifies a number with a string, which is what
  the two constructors give.
\<close>

datatype TaskId = NumId int | StrId string

datatype TaskType = TaskT | MilestoneT | ProjectT

datatype DependencyType = finish_to_start | start_to_start | finish_to_finish | start_to_finish

datatype ViewMode = DayV | WeekV | MonthV | QuarterV | YearV

text \<open>
  Dates. A \<^verbatim>\<open>Date\<close> object is modelled by the instant it holds, in milliseconds from
  1970-01-01T00:00:00Z (its \<^verbatim>\<open>getTime()\<close>), or it is the \<^verbatim>\<open>Invalid Date\<close> whose
  \<^verbatim>\<open>getTime()\<close> is \<^verbatim>\<open>NaN\<close>. The bound of 8.64e15 milliseconds on the instants of a
  \<^verbatim>\<open>Date\<close> is not modelled.
\<close>

datatype jsdate = InvalidDate | Date int

text \<open>
  The value of a date field (\<^verbatim>\<open>start\<close>, \<^verbatim>\<open>end\<close>). The documentation types it as a
  string, the code also accepts a \<^verbatim>\<open>Date\<close> object (\<^verbatim>\<open>task.start instanceof Date\<close>,
  \<^verbatim>\<open>parseDate(dateStr: string | Date)\<close>), and the callers in the repository pass both.

  \<^item> \<open>YMD d\<close> is the ten-character text \<^verbatim>\<open>YYYY-MM-DD\<close> of the calendar day numbered \<open>d\<close>, in
    days from 1970-01-01, for the years 1000 to 9999;
  \<^item> \<open>Text s\<close> is any other text;
  \<^item> \<open>DateObject x\<close> is a \<^verbatim>\<open>Date\<close> object;
  \<^item> \<open>JsonDate x\<close> is what \<^verbatim>\<open>JSON.parse(JSON.stringify(v))\<close> leaves of a \<^verbatim>\<open>Date\<close> object:
    the text of \<^verbatim>\<open>toISOString()\<close> for an instant (\<^verbatim>\<open>2024-01-01T00:00:00.000Z\<close>), and
    \<^verbatim>\<open>null\<close> for the \<^verbatim>\<open>Invalid Date\<close>.
\<close>

datatype datevalue = YMD int | Text string | DateObject jsdate | JsonDate jsdate

record Dependency =
  fromId :: TaskId
  toId :: TaskId
  dtype :: DependencyType
  lag :: int

text \<open>
  A task object. Field names carry the prefix \<open>t_\<close> (\<open>id\<close>, \<open>end\<close> and \<open>type\<close> are taken
  in Isabelle). \<open>t_children\<close> holds references to task objects (addresses of the object
  store of the TaskManager below), as the JavaScript array does. The presentation flags
  (\<^verbatim>\<open>draggable\<close>, \<^verbatim>\<open>resizable\<close>, \<^verbatim>\<open>readonly\<close>, \<^verbatim>\<open>critical\<close>), \<^verbatim>\<open>assignees\<close> and
  \<^verbatim>\<open>metadata\<close> are plain copies of the input in the source and are left out.
\<close>

record Task =
  t_id :: TaskId
  t_name :: string
  t_start :: datevalue
  t_end :: datevalue
  t_type :: TaskType
  t_progress :: int
  t_color :: string
  t_collapsed :: bool
  t_parentId :: "TaskId option"
  t_children :: "nat list"
  t_dependencies :: "TaskId list"
  t_dependsOn :: "TaskId list"

text \<open>\<^verbatim>\<open>Partial<Task>\<close>: every field may be absent.\<close>

record TaskPatch =
  p_id :: "TaskId option"
  p_name :: "string option"
  p_start :: "datevalue option"
  p_end :: "datevalue option"
  p_type :: "TaskType option"
  p_progress :: "int option"
  p_color :: "string option"
  p_collapsed :: "bool option"
  p_parentId :: "TaskId option"
  p_children :: "nat list option"
  p_dependencies :: "TaskId list option"
  p_dependsOn :: "TaskId list option"

definition noPatch :: TaskPatch where
  "noPatch = \<lparr>p_id = None, p_name = None, p_start = None, p_end = None, p_type = None,
     p_progress = None, p_color = None, p_collapsed = None, p_parentId = None,
     p_children = None, p_dependencies = None, p_dependsOn = None\<rparr>"

section \<open>StateManager\<close>

text \<open>
  The fields of \<^verbatim>\<open>StateManagerState\<close> that \<^verbatim>\<open>_handleAction\<close> writes, and the two optional
  dates of \<^verbatim>\<open>viewSettings\<close> (\<^verbatim>\<open>startDate?: Date | string\<close>, \<^verbatim>\<open>endDate?: Date | string\<close>; \<open>None\<close>
  is an absent field), which it never writes but which a snapshot does not copy
  faithfully. \<^verbatim>\<open>config\<close>, \<^verbatim>\<open>resources\<close> and the numbers of \<^verbatim>\<open>viewSettings\<close> are never
  written by it either and are left out; the \<^verbatim>\<open>virtualScroll\<close> numbers are overwritten from
  the rest of the state on every cache rebuild and count as derived data here. In the
  tasks of a state the lists behind \<open>t_children\<close> are plain data.
\<close>

record StateManagerState =
  s_tasks :: "Task list"
  s_dependencies :: "Dependency list"
  s_selectedTaskIds :: "TaskId list"
  s_mode :: ViewMode
  s_startDate :: "datevalue option"
  s_endDate :: "datevalue option"

datatype GanttAction =
    ADD_TASK Task
  | UPDATE_TASK TaskId TaskPatch
  | DELETE_TASK TaskId
  | MOVE_TASK TaskId datevalue datevalue
  | ADD_DEPENDENCY Dependency
  | DELETE_DEPENDENCY TaskId TaskId
  | CHANGE_VIEW ViewMode
  | SET_DATES datevalue datevalue
  | SELECT_TASK TaskId
  | DESELECT_TASK TaskId
  | UNKNOWN_ACTION

text \<open>
  The manager. \<open>history\<close> and \<open>future\<close> are JavaScript arrays: \<^verbatim>\<open>push\<close> appends at the
  end, \<^verbatim>\<open>pop\<close> takes the last element, \<^verbatim>\<open>shift\<close> drops the first.
  \<^verbatim>\<open>_initializeCache\<close> clears the three caches and rebuilds them from \<^verbatim>\<open>_state\<close> alone,
  so the caches are a function of the state they were last built from: \<open>cachedFrom\<close>
  records that state. \<open>notified\<close> is the log of the states handed to the subscribers,
  one entry per run of \<^verbatim>\<open>_notifySubscribers\<close>.
\<close>

record StateManager =
  state :: StateManagerState
  history :: "StateManagerState list"
  future :: "StateManagerState list"
  maxHistorySize :: nat
  batchUpdate :: bool
  pendingActions :: "GanttAction list"
  cachedFrom :: StateManagerState
  notified :: "StateManagerState list"


definition redoStackSize :: "StateManager \<Rightarrow> nat" where
  "redoStackSize m = length (future m)"

definition initializeCache :: "StateManager \<Rightarrow> StateManager" where
  "initializeCache m = m\<lparr>cachedFrom := state m\<rparr>"

definition notifySubscribers :: "StateManager \<Rightarrow> StateManager" where
  "notifySubscribers m = m\<lparr>notified := notified m @ [state m]\<rparr>"

text \<open>
  \<^verbatim>\<open>JSON.parse(JSON.stringify(s))\<close>, the snapshot that \<^verbatim>\<open>_saveToHistory\<close>, \<^verbatim>\<open>undo\<close> and
  \<^verbatim>\<open>redo\<close> store. It copies strings, integers, booleans, arrays and plain objects as they
  are, and turns every \<^verbatim>\<open>Date\<close> object into what \<^verbatim>\<open>toJSON()\<close> gives for it: the ISO text
  of the instant, or \<^verbatim>\<open>null\<close>. (The numbers of a task are integers here; \<^verbatim>\<open>NaN\<close> and the
  infinities, which JSON also turns into \<^verbatim>\<open>null\<close>, are not modelled. A field whose value
  is \<^verbatim>\<open>undefined\<close> is dropped by JSON; the model does not tell it from an absent field.)
\<close>

definition jsonDate :: "datevalue \<Rightarrow> datevalue" where
  "jsonDate v = (case v of DateObject date \<Rightarrow> JsonDate date | _ \<Rightarrow> v)"

definition jsonTask :: "Task \<Rightarrow> Task" where
  "jsonTask t = t\<lparr>t_start := jsonDate (t_start t), t_end := jsonDate (t_end t)\<rparr>"

definition jsonClone :: "StateManagerState \<Rightarrow> StateManagerState" where
  "jsonClone s = s\<lparr>s_tasks := map jsonTask (s_tasks s),
                   s_startDate := map_option jsonDate (s_startDate s),
                   s_endDate := map_option jsonDate (s_endDate s)\<rparr>"

text \<open>
  \<^verbatim>\<open>_saveToHistory\<close>: the snapshot of the current state is pushed, the redo stack is
  cleared, and the oldest entry is dropped when the history has outgrown its capacity.
\<close>

definition saveToHistory :: "StateManager \<Rightarrow> StateManager" where
  "saveToHistory m =
     (let stateClone = jsonClone (state m);
          h = history m @ [stateClone]
      in m\<lparr>history := (if length h > maxHistorySize m then tl h else h), future := []\<rparr>)"

text \<open>\<^verbatim>\<open>{...task, ...updates}\<close>: a field present in the patch replaces the task's.\<close>

definition mergeTask :: "Task \<Rightarrow> TaskPatch \<Rightarrow> Task" where
  "mergeTask t p =
     \<lparr>t_id = (case p_id p of None \<Rightarrow> t_id t | Some v \<Rightarrow> v),
      t_name = (case p_name p of None \<Rightarrow> t_name t | Some v \<Rightarrow> v),
      t_start = (case p_start p of None \<Rightarrow> t_start t | Some v \<Rightarrow> v),
      t_end = (case p_end p of None \<Rightarrow> t_end t | Some v \<Rightarrow> v),
      t_type = (case p_type p of None \<Rightarrow> t_type t | Some v \<Rightarrow> v),
      t_progress = (case p_progress p of None \<Rightarrow> t_progress t | Some v \<Rightarrow> v),
      t_color = (case p_color p of None \<Rightarrow> t_color t | Some v \<Rightarrow> v),
      t_collapsed = (case p_collapsed p of None \<Rightarrow> t_collapsed t | Some v \<Rightarrow> v),
      t_parentId = (case p_parentId p of None \<Rightarrow> t_parentId t | Some v \<Rightarrow> Some v),
      t_children = (case p_children p of None \<Rightarrow> t_children t | Some v \<Rightarrow> v),
      t_dependencies = (case p_dependencies p of None \<Rightarrow> t_dependencies t | Some v \<Rightarrow> v),
      t_dependsOn = (case p_dependsOn p of None \<Rightarrow> t_dependsOn t | Some v \<Rightarrow> v)\<rparr>"

text \<open>\<^verbatim>\<open>findIndex\<close> and the write at the index found: the first match is replaced.\<close>

fun replaceFirst :: "('a \<Rightarrow> bool) \<Rightarrow> ('a \<Rightarrow> 'a) \<Rightarrow> 'a list \<Rightarrow> 'a list" where
  "replaceFirst P f [] = []"
| "replaceFirst P f (x # xs) = (if P x then f x # xs else x # replaceFirst P f xs)"

fun handleAction :: "GanttAction \<Rightarrow> StateManagerState \<Rightarrow> StateManagerState" where
  "handleAction (ADD_TASK t) s = s\<lparr>s_tasks := s_tasks s @ [t]\<rparr>"
| "handleAction (UPDATE_TASK taskId updates) s =
     s\<lparr>s_tasks := replaceFirst (\<lambda>t. t_id t = taskId) (\<lambda>t. mergeTask t updates) (s_tasks s)\<rparr>"
| "handleAction (DELETE_TASK taskId) s =
     s\<lparr>s_tasks := filter (\<lambda>t. t_id t \<noteq> taskId) (s_tasks s),
       s_dependencies := filter (\<lambda>d. fromId d \<noteq> taskId \<and> toId d \<noteq> taskId) (s_dependencies s)\<rparr>"
| "handleAction (MOVE_TASK taskId newStart newEnd) s =
     s\<lparr>s_tasks := replaceFirst (\<lambda>t. t_id t = taskId)
                     (\<lambda>t. t\<lparr>t_start := newStart, t_end := newEnd\<rparr>) (s_tasks s)\<rparr>"
| "handleAction (ADD_DEPENDENCY d) s = s\<lparr>s_dependencies := s_dependencies s @ [d]\<rparr>"
| "handleAction (DELETE_DEPENDENCY f t) s =
     s\<lparr>s_dependencies := filter (\<lambda>d. \<not> (fromId d = f \<and> toId d = t)) (s_dependencies s)\<rparr>"
| "handleAction (CHANGE_VIEW v) s = s\<lparr>s_mode := v\<rparr>"
| "handleAction (SET_DATES a b) s = s"
| "handleAction (SELECT_TASK taskId) s =
     (if taskId \<in> set (s_selectedTaskIds s) then s
      else s\<lparr>s_selectedTaskIds := s_selectedTaskIds s @ [taskId]\<rparr>)"
| "handleAction (DESELECT_TASK taskId) s =
     s\<lparr>s_selectedTaskIds := filter (\<lambda>i. i \<noteq> taskId) (s_selectedTaskIds s)\<rparr>"
| "handleAction UNKNOWN_ACTION s = s"


definition beginBatchUpdate :: "StateManager \<Rightarrow> StateManager" where
  "beginBatchUpdate m = m\<lparr>batchUpdate := True, pendingActions := []\<rparr>"

definition commitBatchUpdate :: "StateManager \<Rightarrow> StateManager" where
  "commitBatchUpdate m =
     (if \<not> batchUpdate m \<or> pendingActions m = [] then m\<lparr>batchUpdate := False\<rparr>
      else let m1 = saveToHistory m;
               m2 = m1\<lparr>state := foldl (\<lambda>s a. handleAction a s) (state m1) (pendingActions m1)\<rparr>;
               m3 = m2\<lparr>batchUpdate := False, pendingActions := []\<rparr>
           in notifySubscribers (initializeCache m3))"



text \<open>
  The constructor with no initial state: empty lists, day view without dates, history
  capacity 10.
\<close>

definition emptyState :: StateManagerState where
  "emptyState = \<lparr>s_tasks = [], s_dependencies = [], s_selectedTaskIds = [], s_mode = DayV,
     s_startDate = None, s_endDate = None\<rparr>"

definition newStateManager :: StateManager where
  "newStateManager =
     \<lparr>state = emptyState, history = [], future = [], maxHistorySize = 10,
      batchUpdate = False, pendingActions = [], cachedFrom = emptyState, notified = []\<rparr>"





fun statesBefore :: "StateManagerState \<Rightarrow> GanttAction list \<Rightarrow> StateManagerState list" where
  "statesBefore s [] = []"
| "statesBefore s (a # as) = s # statesBefore (handleAction a s) as"






section \<open>DateUtils\<close>

text \<open>
  What the JavaScript runtime contributes: the current instant (\<^verbatim>\<open>new Date()\<close>, taken to
  be the same throughout a run), the offset of the host's local time from UTC in minutes
  (positive east of Greenwich, the negative of \<^verbatim>\<open>getTimezoneOffset()\<close>; taken constant, so
  that daylight saving changes are not modelled), the \<^verbatim>\<open>Date\<close> constructor on a text that
  is neither a plain \<^verbatim>\<open>YYYY-MM-DD\<close> nor an ISO text written by \<^verbatim>\<open>JSON.stringify\<close>, and
  the constructor on three numbers read by \<^verbatim>\<open>parseInt\<close>, as \<^verbatim>\<open>parseDate\<close> calls it on the
  three parts of a text:
  \<^verbatim>\<open>new Date(parseInt(a, 10), parseInt(b, 10) - 1, parseInt(c, 10))\<close>.
  None of them throws; the constructors may yield the \<^verbatim>\<open>Invalid Date\<close>.
\<close>

record Host =
  now :: int
  tzOffset :: int
  Date_of_text :: "string \<Rightarrow> jsdate"
  Date_of_parts :: "string \<Rightarrow> string \<Rightarrow> string \<Rightarrow> jsdate"

definition msPerDay :: int where
  "msPerDay = 86400000"

text \<open>
  The calendar day on which an instant falls in the host's local time, in days from
  1970-01-01: what \<^verbatim>\<open>getFullYear()\<close>, \<^verbatim>\<open>getMonth()\<close> and \<^verbatim>\<open>getDate()\<close> read together.
\<close>

definition localDay :: "Host \<Rightarrow> int \<Rightarrow> int" where
  "localDay h ms = (ms + tzOffset h * 60000) div msPerDay"

text \<open>Year, month and day of the month of a day number in the Gregorian calendar.\<close>

definition civilOf :: "int \<Rightarrow> int \<times> int \<times> int" where
  "civilOf dayNo =
     (let z = dayNo + 719468;
          era = z div 146097;
          doe = z - era * 146097;
          yoe = (doe - doe div 1460 + doe div 36524 - doe div 146096) div 365;
          doy = doe - (365 * yoe + yoe div 4 - yoe div 100);
          mp = (5 * doy + 2) div 153;
          d = doy - (153 * mp + 2) div 5 + 1;
          m = (if mp < 10 then mp + 3 else mp - 9);
          y = yoe + era * 400 + (if m \<le> 2 then 1 else 0)
      in (y, m, d))"

text \<open>\<^verbatim>\<open>toString()\<close> of an integer, and the two-digit padding of \<^verbatim>\<open>format\<close>.\<close>

fun showNat :: "nat \<Rightarrow> string" where
  "showNat n = (if n < 10 then [char_of (48 + n)]
                else showNat (n div 10) @ [char_of (48 + n mod 10)])"

definition showInt :: "int \<Rightarrow> string" where
  "showInt n = (if n < 0 then CHR ''-'' # showNat (nat (- n)) else showNat (nat n))"

definition pad2 :: "int \<Rightarrow> string" where
  "pad2 n = (if n < 10 then CHR ''0'' # showInt n else showInt n)"

text \<open>\<^verbatim>\<open>dateStr.split('-')\<close>.\<close>

fun splitDash :: "string \<Rightarrow> string list" where
  "splitDash [] = [[]]"
| "splitDash (c # cs) =
     (if c = CHR ''-'' then [] # splitDash cs
      else (case splitDash cs of [] \<Rightarrow> [[c]] | p # ps \<Rightarrow> (c # p) # ps))"

text \<open>
  \<^verbatim>\<open>DateUtils.parseDate\<close>. A falsy argument (the empty string, \<^verbatim>\<open>null\<close>) gives the current
  instant; a \<^verbatim>\<open>Date\<close> object is returned as it is; a text the \<^verbatim>\<open>Date\<close> constructor accepts
  gives that date, which for \<^verbatim>\<open>YYYY-MM-DD\<close> is midnight of that day at UTC and for an ISO
  text the instant it names; otherwise a text of three \<^verbatim>\<open>-\<close>-separated parts goes through
  the numeric constructor, and anything else gives the current instant. There is no
  \<^verbatim>\<open>throw\<close>.
\<close>

definition parseDate :: "Host \<Rightarrow> datevalue \<Rightarrow> jsdate" where
  "parseDate h dateStr =
     (case dateStr of
        DateObject date \<Rightarrow> date
      | JsonDate InvalidDate \<Rightarrow> Date (now h)
      | JsonDate (Date ms) \<Rightarrow> Date ms
      | YMD d \<Rightarrow> Date (d * msPerDay)
      | Text s \<Rightarrow>
          if s = [] then Date (now h)
          else (case Date_of_text h s of
                  Date ms \<Rightarrow> Date ms
                | InvalidDate \<Rightarrow>
                    (case splitDash s of
                       [a, b, c] \<Rightarrow> Date_of_parts h a b c
                     | _ \<Rightarrow> Date (now h))))"

text \<open>
  \<^verbatim>\<open>DateUtils.format\<close> with the default pattern. The getters read the host's local day.
  The month and the day are padded to two digits, the year is not padded: the result is
  the text \<^verbatim>\<open>YYYY-MM-DD\<close> of the local day when its year has four digits, and a text with
  a shorter, longer or negative year otherwise. On the \<^verbatim>\<open>Invalid Date\<close> every getter is
  \<^verbatim>\<open>NaN\<close> and the result is the text \<^verbatim>\<open>NaN-NaN-NaN\<close>.
\<close>

definition format :: "Host \<Rightarrow> jsdate \<Rightarrow> datevalue" where
  "format h date =
     (case date of
        InvalidDate \<Rightarrow> Text ''NaN-NaN-NaN''
      | Date ms \<Rightarrow>
          (let day = localDay h ms;
               (year, month, dayOfMonth) = civilOf day
           in if 1000 \<le> year \<and> year \<le> 9999 then YMD day
              else Text (showInt year @ ''-'' @ pad2 month @ ''-'' @ pad2 dayOfMonth)))"

text \<open>
  \<^verbatim>\<open>DateUtils.addDays\<close> on a \<^verbatim>\<open>Date\<close>: \<^verbatim>\<open>setDate(getDate() + days)\<close> on a copy, which at
  a constant offset from UTC moves the instant by whole days.
\<close>

definition addDays :: "jsdate \<Rightarrow> int \<Rightarrow> jsdate" where
  "addDays date days =
     (case date of Date ms \<Rightarrow> Date (ms + days * msPerDay) | InvalidDate \<Rightarrow> InvalidDate)"

text \<open>
  \<^verbatim>\<open>DateUtils.daysBetween\<close> on two \<^verbatim>\<open>Date\<close>s: the difference of the local days, each taken
  through \<^verbatim>\<open>Date.UTC(getFullYear(), getMonth(), getDate())\<close>; \<open>None\<close> is \<^verbatim>\<open>NaN\<close>.
  (\<^verbatim>\<open>Date.UTC\<close> reads a year from 0 to 99 as 1900 to 1999; such years are not modelled.)
\<close>

definition daysBetween :: "Host \<Rightarrow> jsdate \<Rightarrow> jsdate \<Rightarrow> int option" where
  "daysBetween h startDate endDate =
     (case (startDate, endDate) of
        (Date a, Date b) \<Rightarrow> Some (localDay h b - localDay h a)
      | _ \<Rightarrow> None)"

text \<open>
  The day number of a calendar date, \<^verbatim>\<open>Date.UTC(y, m - 1, d) / 86400000\<close>, so that examples
  can be written with calendar dates.
\<close>

definition dayNumber :: "int \<Rightarrow> int \<Rightarrow> int \<Rightarrow> int" where
  "dayNumber y m d =
     (let y' = (if m \<le> 2 then y - 1 else y);
          era = y' div 400;
          yoe = y' - era * 400;
          mp = (m + 9) mod 12;
          doy = (153 * mp + 2) div 5 + d - 1;
          doe = yoe * 365 + yoe div 4 - yoe div 100 + doy
      in era * 146097 + doe - 719468)"

definition ymd :: "int \<Rightarrow> int \<Rightarrow> int \<Rightarrow> datevalue" where
  "ymd y m d = YMD (dayNumber y m d)"

section \<open>TaskManager\<close>

datatype error = InvalidDateError

text \<open>
  The options the code reads (\<^verbatim>\<open>autoCalculateDuration\<close> and \<^verbatim>\<open>autoCalculateProgress\<close> are
  stored and never read).
\<close>

record TaskManagerOptions =
  checkCircular :: bool
  defaultTaskType :: TaskType
  defaultTaskColor :: string
  defaultMilestoneColor :: string
  defaultProjectColor :: string

definition defaultOptions :: TaskManagerOptions where
  "defaultOptions = \<lparr>checkCircular = True, defaultTaskType = TaskT,
     defaultTaskColor = ''#4e85c5'', defaultMilestoneColor = ''#722ed1'',
     defaultProjectColor = ''#fa8c16''\<rparr>"

text \<open>
  Task objects are mutated in place and shared: \<^verbatim>\<open>children\<close> arrays hold the very objects
  of \<^verbatim>\<open>this.tasks\<close>. The model keeps the objects in a store, addressed by natural numbers;
  \<open>tasks\<close> is the array \<^verbatim>\<open>this.tasks\<close> as the list of the addresses of its elements, and
  \<open>allocated\<close> counts the objects created so far (the next free address).
\<close>

record TaskManager =
  store :: "nat \<Rightarrow> Task"
  allocated :: nat
  tasks :: "nat list"
  dependencies :: "Dependency list"
  options :: TaskManagerOptions
  nextId :: int

definition blankTask :: Task where
  "blankTask = \<lparr>t_id = StrId [], t_name = [], t_start = Text [], t_end = Text [],
     t_type = TaskT, t_progress = 0, t_color = [], t_collapsed = False, t_parentId = None,
     t_children = [], t_dependencies = [], t_dependsOn = []\<rparr>"

definition newTaskManager :: "TaskManagerOptions \<Rightarrow> TaskManager" where
  "newTaskManager opts = \<lparr>store = (\<lambda>_. blankTask), allocated = 0, tasks = [],
     dependencies = [], options = opts, nextId = 1\<rparr>"

definition taskIds :: "TaskManager \<Rightarrow> TaskId list" where
  "taskIds tm = map (\<lambda>r. t_id (store tm r)) (tasks tm)"

text \<open>\<^verbatim>\<open>getTasks()\<close>: a copy of the array, here the objects' current values.\<close>

definition getTasks :: "TaskManager \<Rightarrow> Task list" where
  "getTasks tm = map (store tm) (tasks tm)"

definition getDependencies :: "TaskManager \<Rightarrow> Dependency list" where
  "getDependencies tm = dependencies tm"

text \<open>\<^verbatim>\<open>this.tasks.find(t => t.id === x)\<close>: the address of the first task with that id.\<close>

definition findTask :: "TaskManager \<Rightarrow> TaskId \<Rightarrow> nat option" where
  "findTask tm x = find (\<lambda>r. t_id (store tm r) = x) (tasks tm)"

text \<open>JavaScript truthiness of an id (\<^verbatim>\<open>0\<close> and \<^verbatim>\<open>''\<close> are falsy) and of a string.\<close>

fun truthyId :: "TaskId \<Rightarrow> bool" where
  "truthyId (NumId n) = (n \<noteq> 0)"
| "truthyId (StrId s) = (s \<noteq> [])"

fun truthyDate :: "datevalue \<Rightarrow> bool" where
  "truthyDate (YMD d) = True"
| "truthyDate (Text s) = (s \<noteq> [])"
| "truthyDate (DateObject date) = True"
| "truthyDate (JsonDate date) = (date \<noteq> InvalidDate)"

text \<open>
  \<^verbatim>\<open>_generateId\<close>: \<^verbatim>\<open>while (this.tasks.some(t => t.id === this.nextId)) this.nextId++\<close>.
  The loop ends because each round passes one of the finitely many ids in use.
\<close>

function generateId :: "TaskId list \<Rightarrow> int \<Rightarrow> int" where
  "generateId ids n = (if NumId n \<in> set ids then generateId ids (n + 1) else n)"
  by pat_completeness auto
termination
proof (relation "measure (\<lambda>(ids, n). length (filter (\<lambda>i. case i of NumId k \<Rightarrow> n \<le> k | StrId s \<Rightarrow> False) ids))")
  show "wf (measure (\<lambda>(ids, n). length (filter (\<lambda>i. case i of NumId k \<Rightarrow> n \<le> k | StrId s \<Rightarrow> False) ids)))"
    by simp
next
  fix ids :: "TaskId list" and n :: int
  assume mem: "NumId n \<in> set ids"
  let ?P = "\<lambda>i. case i of NumId k \<Rightarrow> n \<le> k | StrId s \<Rightarrow> False"
  let ?Q = "\<lambda>i. case i of NumId k \<Rightarrow> n + 1 \<le> k | StrId s \<Rightarrow> False"
  have "filter ?Q ids = filter ?Q (filter ?P ids)"
    by (induction ids) (auto split: TaskId.splits)
  moreover have "NumId n \<in> set (filter ?P ids)" using mem by simp
  moreover have "\<not> ?Q (NumId n)" by simp
  ultimately have "length (filter ?Q ids) < length (filter ?P ids)"
    by (metis length_filter_less)
  then show "((ids, n + 1), (ids, n))
      \<in> measure (\<lambda>(ids, n). length (filter (\<lambda>i. case i of NumId k \<Rightarrow> n \<le> k | StrId s \<Rightarrow> False) ids))"
    by simp
qed

declare generateId.simps [simp del]

text \<open>The text of an id inside the default name, \<^verbatim>\<open>`${id}`\<close>.\<close>

fun idText :: "TaskId \<Rightarrow> string" where
  "idText (StrId s) = s"
| "idText (NumId n) = (if n < 0 then CHR ''-'' # showNat (nat (- n)) else showNat (nat n))"

text \<open>The default name is the two-character word for "task" (six bytes in UTF-8), a space, the id.\<close>

definition defaultName :: "TaskId \<Rightarrow> string" where
  "defaultName i = map char_of [228, 187, 187, 229, 138, 161, 32 :: nat] @ idText i"

text \<open>
  \<^verbatim>\<open>_updateParentTaskChildren\<close>: the first task with the parent's id gets, as its children,
  the tasks of the list whose \<^verbatim>\<open>parentId\<close> is that id.
\<close>

definition updateParentTaskChildren :: "TaskId \<Rightarrow> TaskManager \<Rightarrow> TaskManager" where
  "updateParentTaskChildren parentId tm =
     (case findTask tm parentId of
        None \<Rightarrow> tm
      | Some r \<Rightarrow>
          tm\<lparr>store := (store tm)(r := (store tm r)
                \<lparr>t_children := filter (\<lambda>c. t_parentId (store tm c) = Some parentId) (tasks tm)\<rparr>)\<rparr>)"

text \<open>
  \<^verbatim>\<open>createTask\<close>. The result is the address of the new object and the manager after the
  call. The body has no \<^verbatim>\<open>throw\<close>, and neither has anything it calls.
\<close>

definition createTask :: "Host \<Rightarrow> TaskManager \<Rightarrow> TaskPatch \<Rightarrow> error + (nat \<times> TaskManager)" where
  "createTask h tm taskData =
     (let (newId, tm1) =
            (case p_id taskData of
               Some i \<Rightarrow> if truthyId i then (i, tm)
                         else (let n = generateId (taskIds tm) (nextId tm)
                               in (NumId n, tm\<lparr>nextId := n\<rparr>))
             | None \<Rightarrow> (let n = generateId (taskIds tm) (nextId tm)
                        in (NumId n, tm\<lparr>nextId := n\<rparr>)));
          start = (case p_start taskData of
                     Some s \<Rightarrow> if truthyDate s then parseDate h s else Date (now h)
                   | None \<Rightarrow> Date (now h));
          end = (case p_end taskData of
                   Some s \<Rightarrow> if truthyDate s then parseDate h s else addDays start 1
                 | None \<Rightarrow> addDays start 1);
          color = (case p_color taskData of
                     Some c \<Rightarrow> if c \<noteq> [] then Some c else None
                   | None \<Rightarrow> None);
          color' = (case color of
                      Some c \<Rightarrow> c
                    | None \<Rightarrow>
                        (case p_type taskData of
                           Some MilestoneT \<Rightarrow> defaultMilestoneColor (options tm)
                         | Some ProjectT \<Rightarrow> defaultProjectColor (options tm)
                         | _ \<Rightarrow> defaultTaskColor (options tm)));
          newTask = \<lparr>t_id = newId,
                     t_name = (case p_name taskData of
                                 Some s \<Rightarrow> if s \<noteq> [] then s else defaultName newId
                               | None \<Rightarrow> defaultName newId),
                     t_start = format h start,
                     t_end = format h end,
                     t_type = (case p_type taskData of Some ty \<Rightarrow> ty
                               | None \<Rightarrow> defaultTaskType (options tm)),
                     t_progress = (case p_progress taskData of Some p \<Rightarrow> p | None \<Rightarrow> 0),
                     t_color = color',
                     t_collapsed = (case p_collapsed taskData of Some b \<Rightarrow> b | None \<Rightarrow> False),
                     t_parentId = p_parentId taskData,
                     t_children = (case p_children taskData of Some cs \<Rightarrow> cs | None \<Rightarrow> []),
                     t_dependencies = (case p_dependencies taskData of Some ds \<Rightarrow> ds | None \<Rightarrow> []),
                     t_dependsOn = (case p_dependsOn taskData of Some ds \<Rightarrow> ds | None \<Rightarrow> [])\<rparr>;
          r = allocated tm1;
          tm2 = tm1\<lparr>store := (store tm1)(r := newTask), allocated := Suc r,
                    tasks := tasks tm1 @ [r]\<rparr>
      in Inr (r, (case p_parentId taskData of
                    Some p \<Rightarrow> if truthyId p then updateParentTaskChildren p tm2 else tm2
                  | None \<Rightarrow> tm2)))"

text \<open>
  \<^verbatim>\<open>_updateTaskDependencies\<close>: every task of the list gets empty \<^verbatim>\<open>dependsOn\<close> and
  \<^verbatim>\<open>dependencies\<close>; then each dependency, in order, is pushed onto the first task with
  its \<^verbatim>\<open>fromId\<close> and onto the first task with its \<^verbatim>\<open>toId\<close>.
\<close>

definition clearTaskDependencies :: "TaskManager \<Rightarrow> TaskManager" where
  "clearTaskDependencies tm =
     tm\<lparr>store := foldl (\<lambda>st r. st(r := (st r)\<lparr>t_dependencies := [], t_dependsOn := []\<rparr>))
                      (store tm) (tasks tm)\<rparr>"

definition linkDependency :: "TaskManager \<Rightarrow> Dependency \<Rightarrow> TaskManager" where
  "linkDependency tm dep =
     (let tm1 = (case findTask tm (fromId dep) of
                   None \<Rightarrow> tm
                 | Some r \<Rightarrow> tm\<lparr>store := (store tm)(r := (store tm r)
                       \<lparr>t_dependencies := t_dependencies (store tm r) @ [toId dep]\<rparr>)\<rparr>)
      in (case findTask tm1 (toId dep) of
            None \<Rightarrow> tm1
          | Some r \<Rightarrow> tm1\<lparr>store := (store tm1)(r := (store tm1 r)
                \<lparr>t_dependsOn := t_dependsOn (store tm1 r) @ [fromId dep]\<rparr>)\<rparr>))"

definition updateTaskDependencies :: "TaskManager \<Rightarrow> TaskManager" where
  "updateTaskDependencies tm = foldl linkDependency (clearTaskDependencies tm) (dependencies tm)"

text \<open>
  \<^verbatim>\<open>checkCircularDependencies\<close>. The \<^verbatim>\<open>Map\<close> built from the dependency list gives each
  \<^verbatim>\<open>fromId\<close> the list of its \<^verbatim>\<open>toId\<close>s in the order of the list, and \<^verbatim>\<open>graph.get(v) || []\<close>
  gives the empty list to every other id: \<open>graphOf\<close>.

  \<^verbatim>\<open>hasCycle\<close> is the recursive closure over the two sets \<^verbatim>\<open>visited\<close> and
  \<^verbatim>\<open>recursionStack\<close>; it returns its boolean and leaves the sets changed. The first
  argument bounds the depth of the recursion (\<open>None\<close>: bound reached); the loop over the
  successors, \<open>hasCycleFor\<close>, stops at the first \<^verbatim>\<open>true\<close>, and so does the loop over
  \<^verbatim>\<open>this.tasks\<close>, which has the same shape.
\<close>

definition graphOf :: "Dependency list \<Rightarrow> TaskId \<Rightarrow> TaskId list" where
  "graphOf deps v = map toId (filter (\<lambda>d. fromId d = v) deps)"

fun hasCycle :: "nat \<Rightarrow> (TaskId \<Rightarrow> TaskId list) \<Rightarrow> TaskId \<Rightarrow> TaskId set \<times> TaskId set
                  \<Rightarrow> (bool \<times> TaskId set \<times> TaskId set) option"
and hasCycleFor :: "nat \<Rightarrow> (TaskId \<Rightarrow> TaskId list) \<Rightarrow> TaskId list \<Rightarrow> TaskId set \<times> TaskId set
                  \<Rightarrow> (bool \<times> TaskId set \<times> TaskId set) option" where
  "hasCycle 0 g v st = None"
| "hasCycle (Suc n) g v (visited, recursionStack) =
     (if v \<in> recursionStack then Some (True, visited, recursionStack)
      else if v \<in> visited then Some (False, visited, recursionStack)
      else (case hasCycleFor n g (g v) (insert v visited, insert v recursionStack) of
              None \<Rightarrow> None
            | Some (True, st') \<Rightarrow> Some (True, st')
            | Some (False, visited', recursionStack') \<Rightarrow>
                Some (False, visited', recursionStack' - {v})))"
| "hasCycleFor n g [] st = Some (False, st)"
| "hasCycleFor n g (d # ds) st =
     (case hasCycle n g d st of
        None \<Rightarrow> None
      | Some (True, st') \<Rightarrow> Some (True, st')
      | Some (False, st') \<Rightarrow> hasCycleFor n g ds st')"

text \<open>
  The depth of the recursion never exceeds the number of ids that can be visited, plus
  one; \<open>checkCircularDependencies_total\<close> below proves that this bound is never reached,
  \<open>checkCircularDependencies_any_depth\<close> that a larger one gives the same result.
\<close>

definition checkCircularDependencies :: "TaskManager \<Rightarrow> bool option" where
  "checkCircularDependencies tm =
     map_option fst
       (hasCycleFor (Suc (length (tasks tm) + length (dependencies tm)))
          (graphOf (dependencies tm)) (taskIds tm) ({}, {}))"

text \<open>
  \<^verbatim>\<open>createDependency\<close>. The result is the returned dependency (\<open>None\<close> for \<^verbatim>\<open>null\<close>) and
  the manager after the call.
\<close>

definition createDependency ::
  "TaskManager \<Rightarrow> TaskId \<Rightarrow> TaskId \<Rightarrow> DependencyType \<Rightarrow> int
     \<Rightarrow> (Dependency option \<times> TaskManager) option" where
  "createDependency tm f t ty lg =
     (if findTask tm f = None \<or> findTask tm t = None then Some (None, tm)
      else (case find (\<lambda>dep. fromId dep = f \<and> toId dep = t \<and> dtype dep = ty) (dependencies tm) of
              Some existingDependency \<Rightarrow> Some (Some existingDependency, tm)
            | None \<Rightarrow>
                (let dependency = \<lparr>fromId = f, toId = t, dtype = ty, lag = lg\<rparr>;
                     tm1 = updateTaskDependencies
                             (tm\<lparr>dependencies := dependencies tm @ [dependency]\<rparr>)
                 in if checkCircular (options tm1)
                    then (case checkCircularDependencies tm1 of
                            None \<Rightarrow> None
                          | Some True \<Rightarrow>
                              Some (None, updateTaskDependencies
                                            (tm1\<lparr>dependencies := butlast (dependencies tm1)\<rparr>))
                          | Some False \<Rightarrow> Some (Some dependency, tm1))
                    else Some (Some dependency, tm1))))"

text \<open>A sequence of \<^verbatim>\<open>createDependency\<close> calls, each on the manager the previous one left.\<close>

fun createDependencies ::
  "TaskManager \<Rightarrow> (TaskId \<times> TaskId \<times> DependencyType \<times> int) list \<Rightarrow> TaskManager option" where
  "createDependencies tm [] = Some tm"
| "createDependencies tm ((f, t, ty, lg) # cs) =
     (case createDependency tm f t ty lg of
        None \<Rightarrow> None
      | Some (_, tm') \<Rightarrow> createDependencies tm' cs)"

text \<open>
  The dependency list as a directed graph, for the statements about cycles: the edges of
  a dependency list lead from \<^verbatim>\<open>fromId\<close> to \<^verbatim>\<open>toId\<close>, those of a successor function from
  an id to each of its successors. The list has a cycle when the relation of its edges is
  not \<^const>\<open>acyclic\<close>.

  \<open>dfsInv\<close> is what holds of \<^verbatim>\<open>visited\<close> and \<^verbatim>\<open>recursionStack\<close> between the calls of
  \<^verbatim>\<open>hasCycle\<close>: the stack is part of \<^verbatim>\<open>visited\<close>, and the ids visited and taken off the
  stack again are closed under the edges and lie on no cycle. \<open>onStackPath\<close> says that
  every id on the stack reaches the id about to be visited.
\<close>

definition depEdges :: "Dependency list \<Rightarrow> (TaskId \<times> TaskId) set" where
  "depEdges deps = (\<lambda>d. (fromId d, toId d)) ` set deps"

definition edgesOf :: "(TaskId \<Rightarrow> TaskId list) \<Rightarrow> (TaskId \<times> TaskId) set" where
  "edgesOf g = {(u, w). w \<in> set (g u)}"

definition dfsInv :: "(TaskId \<Rightarrow> TaskId list) \<Rightarrow> TaskId set \<times> TaskId set \<Rightarrow> bool" where
  "dfsInv g st =
     (snd st \<subseteq> fst st
      \<and> (\<forall>b \<in> fst st - snd st. set (g b) \<subseteq> fst st - snd st)
      \<and> (\<forall>b \<in> fst st - snd st. (b, b) \<notin> (edgesOf g)\<^sup>+))"

definition onStackPath :: "(TaskId \<Rightarrow> TaskId list) \<Rightarrow> TaskId set \<times> TaskId set \<Rightarrow> TaskId \<Rightarrow> bool" where
  "onStackPath g st v = (\<forall>s \<in> snd st. (s, v) \<in> (edgesOf g)\<^sup>+)"

text \<open>
  \<^verbatim>\<open>deleteTask\<close>. \<^verbatim>\<open>collectTasksToDelete\<close> adds the id and calls itself on the id of every
  task whose \<^verbatim>\<open>parentId\<close> is the id; it keeps no record of the ids it is working on. The
  first argument is the number of nested calls the engine's stack has room for; \<open>None\<close> is
  the call that does not return (the stack is exhausted).
\<close>

fun collectTasksToDelete :: "nat \<Rightarrow> Task list \<Rightarrow> TaskId \<Rightarrow> TaskId set \<Rightarrow> TaskId set option"
and collectEach :: "nat \<Rightarrow> Task list \<Rightarrow> TaskId list \<Rightarrow> TaskId set \<Rightarrow> TaskId set option" where
  "collectTasksToDelete 0 ts i tasksToDelete = None"
| "collectTasksToDelete (Suc n) ts i tasksToDelete =
     collectEach n ts (map t_id (filter (\<lambda>t. t_parentId t = Some i) ts)) (insert i tasksToDelete)"
| "collectEach n ts [] tasksToDelete = Some tasksToDelete"
| "collectEach n ts (c # cs) tasksToDelete =
     (case collectTasksToDelete n ts c tasksToDelete of
        None \<Rightarrow> None
      | Some tasksToDelete' \<Rightarrow> collectEach n ts cs tasksToDelete')"

definition deleteTask :: "nat \<Rightarrow> TaskManager \<Rightarrow> TaskId \<Rightarrow> (bool \<times> TaskManager) option" where
  "deleteTask n tm taskId =
     (case findTask tm taskId of
        None \<Rightarrow> Some (False, tm)
      | Some r \<Rightarrow>
          (case collectTasksToDelete n (getTasks tm) taskId {} of
             None \<Rightarrow> None
           | Some tasksToDelete \<Rightarrow>
               (let parentId = t_parentId (store tm r);
                    tm1 = tm\<lparr>dependencies :=
                               filter (\<lambda>d. fromId d \<notin> tasksToDelete \<and> toId d \<notin> tasksToDelete)
                                 (dependencies tm)\<rparr>;
                    tm2 = tm1\<lparr>tasks := filter (\<lambda>a. t_id (store tm1 a) \<notin> tasksToDelete) (tasks tm1)\<rparr>
                in Some (True,
                     (case parentId of
                        Some p \<Rightarrow> if truthyId p \<and> p \<notin> tasksToDelete
                                  then updateParentTaskChildren p tm2 else tm2
                      | None \<Rightarrow> tm2)))))"

text \<open>
  \<^verbatim>\<open>getDescendantTasks\<close> walks the \<^verbatim>\<open>children\<close> arrays: each child is pushed, then its own
  children are walked. The result lists the addresses of the objects pushed. The first
  argument bounds the nesting as for \<open>deleteTask\<close>.
\<close>

fun collectDescendants :: "nat \<Rightarrow> (nat \<Rightarrow> Task) \<Rightarrow> nat \<Rightarrow> nat list \<Rightarrow> nat list option"
and collectDescendantsEach :: "nat \<Rightarrow> (nat \<Rightarrow> Task) \<Rightarrow> nat list \<Rightarrow> nat list \<Rightarrow> nat list option" where
  "collectDescendants 0 st currentTask descendants = None"
| "collectDescendants (Suc n) st currentTask descendants =
     collectDescendantsEach n st (t_children (st currentTask)) descendants"
| "collectDescendantsEach n st [] descendants = Some descendants"
| "collectDescendantsEach n st (child # cs) descendants =
     (case collectDescendants n st child (descendants @ [child]) of
        None \<Rightarrow> None
      | Some descendants' \<Rightarrow> collectDescendantsEach n st cs descendants')"

definition getDescendantTasks :: "nat \<Rightarrow> TaskManager \<Rightarrow> TaskId \<Rightarrow> nat list option" where
  "getDescendantTasks n tm taskId =
     (case findTask tm taskId of
        None \<Rightarrow> Some []
      | Some r \<Rightarrow> collectDescendants n (store tm) r [])"

text \<open>
  \<^verbatim>\<open>Math.round(total / count)\<close> for an integer total and a positive count:
  \<^verbatim>\<open>Math.round\<close> is the floor of its argument plus one half.
\<close>

definition roundDiv :: "int \<Rightarrow> int \<Rightarrow> int" where
  "roundDiv totalProgress n = (2 * totalProgress + n) div (2 * n)"

definition calculateProjectProgress :: "nat \<Rightarrow> TaskManager \<Rightarrow> TaskId \<Rightarrow> int option" where
  "calculateProjectProgress n tm projectId =
     (case find (\<lambda>r. t_id (store tm r) = projectId \<and> t_type (store tm r) = ProjectT) (tasks tm) of
        None \<Rightarrow> Some 0
      | Some project \<Rightarrow>
          (case getDescendantTasks n tm projectId of
             None \<Rightarrow> None
           | Some descendants \<Rightarrow>
               (let directChildren = t_children (store tm project);
                    allTasks = directChildren @ descendants
                in if allTasks = [] then Some 0
                   else Some (roundDiv (sum_list (map (\<lambda>a. t_progress (store tm a)) allTasks))
                                (int (length allTasks))))))"

text \<open>A sequence of \<^verbatim>\<open>createTask\<close> calls, each on the manager the previous one left.\<close>

fun createTasks :: "Host \<Rightarrow> TaskManager \<Rightarrow> TaskPatch list \<Rightarrow> error + TaskManager" where
  "createTasks h tm [] = Inr tm"
| "createTasks h tm (d # ds) =
     (case createTask h tm d of
        Inl e \<Rightarrow> Inl e
      | Inr (_, tm') \<Rightarrow> createTasks h tm' ds)"

text \<open>
  A host for the examples: it runs at UTC, the instant is noon of 2024-01-01, and the
  \<^verbatim>\<open>Date\<close> constructor rejects the texts of the examples (none of which is a date in any
  notation). The second host differs in its time zone, five hours west of UTC.
\<close>

definition exampleHost :: Host where
  "exampleHost = \<lparr>now = dayNumber 2024 1 1 * msPerDay + 43200000, tzOffset = 0,
     Date_of_text = (\<lambda>_. InvalidDate), Date_of_parts = (\<lambda>_ _ _. InvalidDate)\<rparr>"


definition withId :: "TaskId \<Rightarrow> TaskPatch" where
  "withId i = noPatch\<lparr>p_id := Some i\<rparr>"

text \<open>
  The managers of the examples: two tasks with the ids 1 and 2 and default fields, as two
  \<^verbatim>\<open>createTask\<close> calls leave them, and the same with the dependency from 1 to 2.
\<close>

definition plainTask :: "TaskManagerOptions \<Rightarrow> TaskId \<Rightarrow> Task" where
  "plainTask opts i = \<lparr>t_id = i, t_name = defaultName i, t_start = ymd 2024 1 1,
     t_end = ymd 2024 1 2, t_type = defaultTaskType opts, t_progress = 0,
     t_color = defaultTaskColor opts, t_collapsed = False, t_parentId = None,
     t_children = [], t_dependencies = [], t_dependsOn = []\<rparr>"

definition twoTasksManager :: "TaskManagerOptions \<Rightarrow> TaskManager" where
  "twoTasksManager opts =
     \<lparr>store = (\<lambda>_. blankTask)(0 := plainTask opts (NumId 1), 1 := plainTask opts (NumId 2)),
      allocated = 2, tasks = [0, 1], dependencies = [], options = opts, nextId = 1\<rparr>"

definition dependencyCount :: "TaskManager \<Rightarrow> nat" where
  "dependencyCount tm = length (getDependencies tm)"

definition oneDependencyManager :: TaskManager where
  "oneDependencyManager =
     \<lparr>store = (\<lambda>_. blankTask)
        (0 := (plainTask defaultOptions (NumId 1))\<lparr>t_dependencies := [NumId 2]\<rparr>,
         1 := (plainTask defaultOptions (NumId 2))\<lparr>t_dependsOn := [NumId 1]\<rparr>),
      allocated = 2, tasks = [0, 1],
      dependencies = [\<lparr>fromId = NumId 1, toId = NumId 2, dtype = finish_to_start, lag = 0\<rparr>],
      options = defaultOptions, nextId = 1\<rparr>"

text \<open>
  A call supplies an id when \<^verbatim>\<open>taskData.id\<close> is present and truthy; otherwise the id is
  generated. \<open>freshExplicitIds\<close> says of a sequence of calls that no call supplies an id
  that is in use at the time of the call.
\<close>

definition suppliesId :: "TaskPatch \<Rightarrow> bool" where
  "suppliesId taskData = (case p_id taskData of Some i \<Rightarrow> truthyId i | None \<Rightarrow> False)"

fun freshExplicitIds :: "Host \<Rightarrow> TaskManager \<Rightarrow> TaskPatch list \<Rightarrow> bool" where
  "freshExplicitIds h tm [] = True"
| "freshExplicitIds h tm (d # ds) =
     ((case p_id d of Some i \<Rightarrow> \<not> truthyId i \<or> i \<notin> set (taskIds tm) | None \<Rightarrow> True)
      \<and> (case createTask h tm d of
            Inl e \<Rightarrow> True
          | Inr (_, tm') \<Rightarrow> freshExplicitIds h tm' ds))"

definition wellAllocated :: "TaskManager \<Rightarrow> bool" where
  "wellAllocated tm = (\<forall>a \<in> set (tasks tm). a < allocated tm)"

definition chosenId :: "TaskManager \<Rightarrow> TaskPatch \<Rightarrow> TaskId" where
  "chosenId tm d = (if suppliesId d then the (p_id d)
                    else NumId (generateId (taskIds tm) (nextId tm)))"

definition idInvariant :: "TaskManager \<Rightarrow> bool" where
  "idInvariant tm = (wellAllocated tm \<and> 1 \<le> nextId tm
     \<and> (\<forall>j. 1 \<le> j \<and> j < nextId tm \<longrightarrow> NumId j \<in> set (taskIds tm)))"

text \<open>
  The run of the progress example: a project \<^verbatim>\<open>'p'\<close>, its child \<^verbatim>\<open>'a'\<close> with progress 100,
  and \<^verbatim>\<open>'b'\<close>, a child of \<^verbatim>\<open>'a'\<close>, with progress 0.
\<close>

definition projectExample :: "error + TaskManager" where
  "projectExample =
     createTasks exampleHost (newTaskManager defaultOptions)
       [noPatch\<lparr>p_id := Some (StrId ''p''), p_type := Some ProjectT\<rparr>,
        noPatch\<lparr>p_id := Some (StrId ''a''), p_progress := Some 100,
                p_parentId := Some (StrId ''p'')\<rparr>,
        noPatch\<lparr>p_id := Some (StrId ''b''), p_progress := Some 0,
                p_parentId := Some (StrId ''a'')\<rparr>]"

text \<open>
  The ids that \<^verbatim>\<open>parentId\<close> chains reach from a task: the task's own id, and the id of
  every task whose \<^verbatim>\<open>parentId\<close> is a reached id.
\<close>

inductive_set subtree :: "Task list \<Rightarrow> TaskId \<Rightarrow> TaskId set" for ts :: "Task list" and root :: TaskId where
  root: "root \<in> subtree ts root"
| child: "p \<in> subtree ts root \<Longrightarrow> t \<in> set ts \<Longrightarrow> t_parentId t = Some p \<Longrightarrow> t_id t \<in> subtree ts root"

text \<open>
  The \<^verbatim>\<open>parentId\<close>s form no cycle when the ids can be ranked so that every task ranks
  above its parent.
\<close>

definition parentRanked :: "(TaskId \<Rightarrow> nat) \<Rightarrow> Task list \<Rightarrow> bool" where
  "parentRanked rank ts =
     (\<forall>t \<in> set ts. case t_parentId t of None \<Rightarrow> True | Some p \<Rightarrow> rank p < rank (t_id t))"

text \<open>The descendants of a task: the tasks of the list, other than it, that the chains reach.\<close>

definition descendantsOf :: "Task list \<Rightarrow> TaskId \<Rightarrow> Task list" where
  "descendantsOf ts taskId = filter (\<lambda>t. t_id t \<in> subtree ts taskId \<and> t_id t \<noteq> taskId) ts"

text \<open>A task that names itself as its parent, as one \<^verbatim>\<open>createTask\<close> call leaves it.\<close>

definition selfParentManager :: TaskManager where
  "selfParentManager =
     \<lparr>store = (\<lambda>_. blankTask)
        (0 := (plainTask defaultOptions (StrId ''a''))
                \<lparr>t_parentId := Some (StrId ''a''), t_children := [0]\<rparr>),
      allocated = 1, tasks = [0], dependencies = [], options = defaultOptions, nextId = 1\<rparr>"

text \<open>
  The manager of the repository's test \<^verbatim>\<open>should delete child tasks when parent is deleted\<close>:
  a task \<^verbatim>\<open>'parent'\<close> and a task \<^verbatim>\<open>'child'\<close> whose \<^verbatim>\<open>parentId\<close> is \<^verbatim>\<open>'parent'\<close>.
\<close>

definition parentChildManager :: TaskManager where
  "parentChildManager =
     \<lparr>store = (\<lambda>_. blankTask)
        (0 := (plainTask defaultOptions (StrId ''parent''))\<lparr>t_children := [1]\<rparr>,
         1 := (plainTask defaultOptions (StrId ''child''))\<lparr>t_parentId := Some (StrId ''parent'')\<rparr>),
      allocated = 2, tasks = [0, 1], dependencies = [], options = defaultOptions, nextId = 1\<rparr>"

definition childAbove :: "TaskId \<Rightarrow> nat" where
  "childAbove i = (if i = StrId ''child'' then 1 else 0)"

definition childIds :: "Task list \<Rightarrow> TaskId \<Rightarrow> TaskId list" where
  "childIds ts i = map t_id (filter (\<lambda>t. t_parentId t = Some i) ts)"

section \<open>TaskUtils.autoScheduleTasks\<close>

text \<open>\<^verbatim>\<open>TaskUtils.calculateDuration\<close>: the day difference, not inclusive; \<open>None\<close> is \<^verbatim>\<open>NaN\<close>.\<close>

definition calculateDuration :: "Host \<Rightarrow> Task \<Rightarrow> int option" where
  "calculateDuration h task = daysBetween h (parseDate h (t_start task)) (parseDate h (t_end task))"

text \<open>
  \<^verbatim>\<open>taskMap\<close>: the copies of the tasks by id; a later task with the same id replaces an
  earlier one. The copies are objects shared between \<^verbatim>\<open>taskMap\<close> and \<^verbatim>\<open>result\<close> and are
  written through either; the model keeps them in the map and lets \<^verbatim>\<open>result\<close> be the list of
  the ids whose object was pushed.
\<close>

definition taskMapOf :: "Task list \<Rightarrow> (TaskId \<rightharpoonup> Task)" where
  "taskMapOf ts = foldl (\<lambda>m t. m(t_id t \<mapsto> t)) Map.empty ts"

definition predecessors :: "Dependency list \<Rightarrow> TaskId \<Rightarrow> TaskId list" where
  "predecessors deps taskId = map fromId (filter (\<lambda>dep. toId dep = taskId) deps)"

text \<open>
  The closure \<^verbatim>\<open>visit\<close> over \<^verbatim>\<open>visited\<close> and \<^verbatim>\<open>result\<close>: a visited id returns at once;
  otherwise the predecessors are visited first and then the task, if the map has one, is
  pushed. The first argument bounds the depth of the recursion (\<open>None\<close>: bound reached).
  The loop over the tasks has the shape of the loop over the predecessors.
\<close>

fun visit :: "nat \<Rightarrow> Dependency list \<Rightarrow> (TaskId \<rightharpoonup> Task) \<Rightarrow> TaskId \<Rightarrow> TaskId set \<times> TaskId list
                \<Rightarrow> (TaskId set \<times> TaskId list) option"
and visitEach :: "nat \<Rightarrow> Dependency list \<Rightarrow> (TaskId \<rightharpoonup> Task) \<Rightarrow> TaskId list \<Rightarrow> TaskId set \<times> TaskId list
                \<Rightarrow> (TaskId set \<times> TaskId list) option" where
  "visit 0 deps taskMap taskId st = None"
| "visit (Suc n) deps taskMap taskId (visited, result) =
     (if taskId \<in> visited then Some (visited, result)
      else (case visitEach n deps taskMap (predecessors deps taskId) (insert taskId visited, result) of
              None \<Rightarrow> None
            | Some (visited', result') \<Rightarrow>
                Some (visited', if taskMap taskId = None then result' else result' @ [taskId])))"
| "visitEach n deps taskMap [] st = Some st"
| "visitEach n deps taskMap (p # ps) st =
     (case visit n deps taskMap p st of
        None \<Rightarrow> None
      | Some st' \<Rightarrow> visitEach n deps taskMap ps st')"

text \<open>
  The latest end among the predecessors found in the map, as an instant in milliseconds,
  from \<^verbatim>\<open>new Date(0)\<close>: an end that parses to the \<^verbatim>\<open>Invalid Date\<close>, or does not lie after
  the running maximum, changes nothing.
\<close>

definition maxEndDate :: "Host \<Rightarrow> (TaskId \<rightharpoonup> Task) \<Rightarrow> Dependency list \<Rightarrow> int" where
  "maxEndDate h taskMap incomingDeps =
     foldl (\<lambda>m dep. case taskMap (fromId dep) of
                       None \<Rightarrow> m
                     | Some predecessor \<Rightarrow>
                         (case parseDate h (t_end predecessor) of
                            Date e \<Rightarrow> if e > m then e else m
                          | InvalidDate \<Rightarrow> m))
       0 incomingDeps"

text \<open>The body of \<^verbatim>\<open>result.forEach\<close> for the task pushed under the id \<open>i\<close>.\<close>

definition adjustTask :: "Host \<Rightarrow> Dependency list \<Rightarrow> (TaskId \<rightharpoonup> Task) \<Rightarrow> TaskId \<Rightarrow> (TaskId \<rightharpoonup> Task)" where
  "adjustTask h deps taskMap i =
     (case taskMap i of
        None \<Rightarrow> taskMap
      | Some task \<Rightarrow>
          (let incomingDeps = filter (\<lambda>dep. toId dep = t_id task) deps
           in if incomingDeps = [] then taskMap
              else (let m = maxEndDate h taskMap incomingDeps
                    in if m > 0
                       then (let newStartDate = addDays (Date m) 1;
                                 newEndDate = (case calculateDuration h task of
                                                 Some duration \<Rightarrow> addDays newStartDate duration
                                               | None \<Rightarrow> InvalidDate)
                             in taskMap(i \<mapsto> task\<lparr>t_start := format h newStartDate,
                                                    t_end := format h newEndDate\<rparr>))
                       else taskMap)))"

text \<open>
  \<^verbatim>\<open>autoScheduleTasks\<close>. The call of \<^verbatim>\<open>hasCyclicDependencies\<close> only decides whether a
  warning is logged and is left out. The bound on the depth of \<^verbatim>\<open>visit\<close> is never reached
  (\<open>autoScheduleTasks_total\<close> below), and a larger one gives the same result
  (\<open>visitEach_any_depth\<close>).
\<close>

definition autoScheduleTasks :: "Host \<Rightarrow> Task list \<Rightarrow> Dependency list \<Rightarrow> Task list option" where
  "autoScheduleTasks h ts deps =
     (let taskMap = taskMapOf ts
      in (case visitEach (Suc (length ts + length deps)) deps taskMap (map t_id ts) ({}, []) of
            None \<Rightarrow> None
          | Some (visited, result) \<Rightarrow>
              Some (List.map_filter (foldl (adjustTask h deps) taskMap result) result)))"






















section \<open>Properties of DateUtils\<close>

text \<open>The calendar dates of the day numbers that occur in the examples.\<close>

lemma civil_days:
  "civilOf 19723 = (2024, 1, 1)"
  "civilOf 19724 = (2024, 1, 2)"
  "civilOf 19725 = (2024, 1, 3)"
  "civilOf 19727 = (2024, 1, 5)"
  "civilOf 19728 = (2024, 1, 6)"
  "civilOf 19730 = (2024, 1, 8)"
  "civilOf 19732 = (2024, 1, 10)"
  "civilOf 19733 = (2024, 1, 11)"
  "civilOf 19734 = (2024, 1, 12)"
  "civilOf 19738 = (2024, 1, 16)"
  by code_simp+

lemma day_numbers:
  "dayNumber 1969 12 25 = - 7"
  "dayNumber 1969 12 31 = - 1"
  "dayNumber 2024 1 1 = 19723"
  "dayNumber 2024 1 2 = 19724"
  "dayNumber 2024 1 3 = 19725"
  "dayNumber 2024 1 5 = 19727"
  "dayNumber 2024 1 6 = 19728"
  "dayNumber 2024 1 8 = 19730"
  "dayNumber 2024 1 10 = 19732"
  "dayNumber 2024 1 11 = 19733"
  "dayNumber 2024 1 12 = 19734"
  "dayNumber 2024 1 16 = 19738"
  by (simp_all add: dayNumber_def)

section \<open>Properties of the StateManager\<close>

text \<open>
  C10. \<^verbatim>\<open>commitBatchUpdate()\<close> with nothing queued, or called outside batch mode, only
  clears the batching flag: the state, the undo history, the redo stack, the caches and
  the subscribers' log are what they were.
\<close>

theorem commitBatchUpdate_empty_noop:
  assumes "pendingActions m = [] \<or> \<not> batchUpdate m"
  shows "commitBatchUpdate m = m\<lparr>batchUpdate := False\<rparr>"
  using assms by (auto simp: commitBatchUpdate_def)

theorem commitBatchUpdate_empty_noop_witness:
  "(pendingActions (beginBatchUpdate newStateManager) = []
      \<or> \<not> batchUpdate (beginBatchUpdate newStateManager))
   \<and> commitBatchUpdate (beginBatchUpdate newStateManager) = newStateManager"
  using commitBatchUpdate_empty_noop [of "beginBatchUpdate newStateManager"]
  by (simp add: beginBatchUpdate_def newStateManager_def)

subsection \<open>Undo and redo\<close>


lemma length_statesBefore [simp]: "length (statesBefore s as) = length as"
  by (induction as arbitrary: s) simp_all



lemma jsonDate_idem [simp]: "jsonDate (jsonDate v) = jsonDate v"
  by (cases v) (simp_all add: jsonDate_def)

lemma jsonTask_idem [simp]: "jsonTask (jsonTask t) = jsonTask t"
  by (simp add: jsonTask_def)

lemma jsonClone_idem [simp]: "jsonClone (jsonClone s) = jsonClone s"
  by (simp add: jsonClone_def option.map_comp comp_def)











subsection \<open>Batch mode\<close>





section \<open>Properties of the TaskManager\<close>

subsection \<open>Dependencies and the cycle check\<close>

lemma clear_fold_id:
  "t_id (foldl (\<lambda>st r. st(r := (st r)\<lparr>t_dependencies := [], t_dependsOn := []\<rparr>)) st rs x) = t_id (st x)"
  by (induction rs arbitrary: st) simp_all

lemma clearTaskDependencies_frame:
  "tasks (clearTaskDependencies tm) = tasks tm"
  "dependencies (clearTaskDependencies tm) = dependencies tm"
  "options (clearTaskDependencies tm) = options tm"
  "t_id (store (clearTaskDependencies tm) x) = t_id (store tm x)"
  by (simp_all add: clearTaskDependencies_def clear_fold_id)

lemma linkDependency_frame:
  "tasks (linkDependency tm d) = tasks tm"
  "dependencies (linkDependency tm d) = dependencies tm"
  "options (linkDependency tm d) = options tm"
  "t_id (store (linkDependency tm d) x) = t_id (store tm x)"
  by (simp_all add: linkDependency_def Let_def split: option.splits)

lemma foldl_linkDependency_frame:
  "tasks (foldl linkDependency tm ds) = tasks tm
   \<and> dependencies (foldl linkDependency tm ds) = dependencies tm
   \<and> options (foldl linkDependency tm ds) = options tm
   \<and> (\<forall>x. t_id (store (foldl linkDependency tm ds) x) = t_id (store tm x))"
  by (induction ds arbitrary: tm) (simp_all add: linkDependency_frame)

lemma updateTaskDependencies_frame:
  "tasks (updateTaskDependencies tm) = tasks tm"
  "dependencies (updateTaskDependencies tm) = dependencies tm"
  "options (updateTaskDependencies tm) = options tm"
  "t_id (store (updateTaskDependencies tm) x) = t_id (store tm x)"
  by (simp_all add: updateTaskDependencies_def foldl_linkDependency_frame clearTaskDependencies_frame)

lemma updateTaskDependencies_taskIds:
  "taskIds (updateTaskDependencies tm) = taskIds tm"
  by (simp add: taskIds_def updateTaskDependencies_frame)

lemma updateTaskDependencies_findTask:
  "findTask (updateTaskDependencies tm) x = findTask tm x"
  by (simp add: findTask_def updateTaskDependencies_frame)

lemma hasCycle_visited_mono:
  "hasCycle n g v st = Some (b, st') \<Longrightarrow> fst st \<subseteq> fst st'"
  "hasCycleFor n g ds st = Some (b, st') \<Longrightarrow> fst st \<subseteq> fst st'"
proof (induction n g v st and n g ds st arbitrary: b st' and b st' rule: hasCycle_hasCycleFor.induct)
  case (1 g v st)
  then show ?case by simp
next
  case (2 n g v visited recursionStack)
  show ?case
  proof (cases "v \<in> recursionStack \<or> v \<in> visited")
    case True
    with "2.prems" show ?thesis by (auto split: if_splits)
  next
    case False
    with "2.prems" obtain b1 st1 where
      r: "hasCycleFor n g (g v) (insert v visited, insert v recursionStack) = Some (b1, st1)"
      and sub: "fst st1 \<subseteq> fst st'"
      by (auto split: option.splits bool.splits prod.splits)
    from "2.IH" [OF _ _ r] False have "insert v visited \<subseteq> fst st1" by simp
    with sub show ?thesis by auto
  qed
next
  case (3 n g st)
  then show ?case by simp
next
  case (4 n g d ds st)
  from "4.prems" obtain b1 st1 where r: "hasCycle n g d st = Some (b1, st1)"
    by (auto split: option.splits)
  from "4.IH"(1) [OF r] have s1: "fst st \<subseteq> fst st1" .
  show ?case
  proof (cases b1)
    case True
    with r "4.prems" s1 show ?thesis by simp
  next
    case False
    with r "4.prems" have "hasCycleFor n g ds st1 = Some (b, st')" by simp
    from "4.IH"(2) [OF r refl _ this] False s1 show ?thesis by auto
  qed
qed

lemma hasCycleFor_total_step:
  assumes fin: "finite U"
    and H: "\<And>v vis rs. v \<in> U \<Longrightarrow> card (U - vis) < n \<Longrightarrow> hasCycle n g v (vis, rs) \<noteq> None"
  shows "set ds \<subseteq> U \<Longrightarrow> card (U - vis) < n \<Longrightarrow> hasCycleFor n g ds (vis, rs) \<noteq> None"
proof (induction ds arbitrary: vis rs)
  case Nil
  then show ?case by simp
next
  case (Cons d ds)
  from Cons.prems have "d \<in> U" by simp
  from H [OF this Cons.prems(2)] obtain b vis1 rs1 where
    r: "hasCycle n g d (vis, rs) = Some (b, vis1, rs1)" by (metis not_None_eq prod_cases3)
  from hasCycle_visited_mono(1) [OF r] have "vis \<subseteq> vis1" by simp
  then have "U - vis1 \<subseteq> U - vis" by auto
  with fin have "card (U - vis1) \<le> card (U - vis)" by (simp add: card_mono)
  with Cons.prems have c: "card (U - vis1) < n" by simp
  from Cons.prems have "set ds \<subseteq> U" by simp
  from Cons.IH [OF this c] r show ?case by (cases b) simp_all
qed

lemma hasCycle_total:
  assumes fin: "finite U" and closed: "\<And>u. set (g u) \<subseteq> U"
  shows "v \<in> U \<Longrightarrow> card (U - vis) < n \<Longrightarrow> hasCycle n g v (vis, rs) \<noteq> None"
proof (induction n arbitrary: v vis rs)
  case 0
  then show ?case by simp
next
  case (Suc n)
  show ?case
  proof (cases "v \<in> rs \<or> v \<in> vis")
    case True
    then show ?thesis by auto
  next
    case False
    with Suc.prems have vin: "v \<in> U - vis" by simp
    have "U - insert v vis = (U - vis) - {v}" by auto
    with fin vin have "card (U - insert v vis) = card (U - vis) - 1" by simp
    moreover from fin vin have "card (U - vis) > 0" by (metis card_gt_0_iff empty_iff finite_Diff)
    ultimately have c: "card (U - insert v vis) < n" using Suc.prems(2) by simp
    have "hasCycleFor n g (g v) (insert v vis, insert v rs) \<noteq> None"
      by (rule hasCycleFor_total_step [OF fin Suc.IH closed c])
    then obtain b vis1 rs1 where
      "hasCycleFor n g (g v) (insert v vis, insert v rs) = Some (b, vis1, rs1)"
      by (metis not_None_eq prod_cases3)
    with False show ?thesis by (cases b) simp_all
  qed
qed

lemma hasCycleFor_total:
  assumes fin: "finite U" and closed: "\<And>u. set (g u) \<subseteq> U"
    and "set ds \<subseteq> U" and "card (U - vis) < n"
  shows "hasCycleFor n g ds (vis, rs) \<noteq> None"
  by (rule hasCycleFor_total_step [OF fin hasCycle_total [OF fin closed] assms(3,4)])

lemma graphOf_subset: "set (graphOf deps u) \<subseteq> set (map toId deps)"
  by (auto simp: graphOf_def)

lemma checkCircularDependencies_total: "\<exists>b. checkCircularDependencies tm = Some b"
proof -
  let ?U = "set (taskIds tm) \<union> set (map toId (dependencies tm))"
  have fin: "finite ?U" by simp
  have closed: "\<And>u. set (graphOf (dependencies tm) u) \<subseteq> ?U"
    using graphOf_subset by fastforce
  have "card ?U \<le> card (set (taskIds tm)) + card (set (map toId (dependencies tm)))"
    by (rule card_Un_le)
  also have "\<dots> \<le> length (taskIds tm) + length (map toId (dependencies tm))"
    by (intro add_mono card_length)
  finally have "card (?U - {}) < Suc (length (tasks tm) + length (dependencies tm))"
    by (simp add: taskIds_def)
  from hasCycleFor_total [where ds = "taskIds tm" and rs = "{}", OF fin closed _ this]
  show ?thesis by (auto simp: checkCircularDependencies_def)
qed

subsection \<open>The cycle check decides whether the dependency list has a cycle\<close>

text \<open>A set of ids closed under the edges contains everything reachable from it.\<close>

lemma closed_reach:
  assumes cl: "\<forall>b \<in> B. set (g b) \<subseteq> B"
  shows "(b, w) \<in> (edgesOf g)\<^sup>* \<Longrightarrow> b \<in> B \<Longrightarrow> w \<in> B"
proof (induction rule: rtrancl_induct)
  case base
  then show ?case .
next
  case (step y z)
  then have "y \<in> B" by simp
  moreover from step have "z \<in> set (g y)" by (simp add: edgesOf_def)
  ultimately show ?case using cl by auto
qed

text \<open>
  \<^verbatim>\<open>hasCycle\<close>, called in a state that satisfies \<open>dfsInv\<close> on an id that every id on the
  stack reaches: if it returns \<^verbatim>\<open>true\<close> the graph has a cycle; if it returns \<^verbatim>\<open>false\<close> the
  stack is what it was, the id is visited and off the stack, and \<open>dfsInv\<close> holds again.
\<close>

lemma hasCycle_correct:
  "hasCycle n g v st = Some (b, st') \<Longrightarrow> dfsInv g st \<Longrightarrow> onStackPath g st v \<Longrightarrow>
     (if b then \<exists>u. (u, u) \<in> (edgesOf g)\<^sup>+
      else snd st' = snd st \<and> fst st \<subseteq> fst st' \<and> v \<in> fst st' - snd st' \<and> dfsInv g st')"
  "hasCycleFor n g ds st = Some (b, st') \<Longrightarrow> dfsInv g st \<Longrightarrow> (\<forall>d \<in> set ds. onStackPath g st d) \<Longrightarrow>
     (if b then \<exists>u. (u, u) \<in> (edgesOf g)\<^sup>+
      else snd st' = snd st \<and> fst st \<subseteq> fst st' \<and> set ds \<subseteq> fst st' - snd st' \<and> dfsInv g st')"
proof (induction n g v st and n g ds st arbitrary: b st' and b st' rule: hasCycle_hasCycleFor.induct)
  case (1 g v st)
  then show ?case by simp
next
  case (2 n g v visited recursionStack)
  let ?E = "edgesOf g"
  show ?case
  proof (cases "v \<in> recursionStack")
    case True
    with "2.prems"(3) have "(v, v) \<in> ?E\<^sup>+" by (simp add: onStackPath_def)
    moreover from True "2.prems"(1) have "b" by simp
    ultimately show ?thesis by auto
  next
    case nst: False
    show ?thesis
    proof (cases "v \<in> visited")
      case True
      with nst "2.prems"(1) have "\<not> b" "st' = (visited, recursionStack)" by auto
      with True nst "2.prems"(2) show ?thesis by simp
    next
      case nvis: False
      let ?st0 = "(insert v visited, insert v recursionStack)"
      from nst nvis "2.prems"(1) obtain b1 st1 where
        r: "hasCycleFor n g (g v) ?st0 = Some (b1, st1)"
        by (auto split: option.splits)
      have inv0: "dfsInv g ?st0"
        using "2.prems"(2) nvis nst by (auto simp: dfsInv_def)
      have path0: "\<forall>d \<in> set (g v). onStackPath g ?st0 d"
      proof
        fix d assume d: "d \<in> set (g v)"
        then have e: "(v, d) \<in> ?E" by (simp add: edgesOf_def)
        show "onStackPath g ?st0 d"
          unfolding onStackPath_def
        proof
          fix s assume "s \<in> snd ?st0"
          then have "s = v \<or> s \<in> recursionStack" by auto
          then show "(s, d) \<in> ?E\<^sup>+"
          proof
            assume "s = v" with e show ?thesis by auto
          next
            assume "s \<in> recursionStack"
            with "2.prems"(3) have "(s, v) \<in> ?E\<^sup>+" by (simp add: onStackPath_def)
            with e show ?thesis by (auto intro: trancl_into_trancl)
          qed
        qed
      qed
      from "2.IH" [OF nst nvis r inv0 path0]
      have IH: "if b1 then \<exists>u. (u, u) \<in> ?E\<^sup>+
                else snd st1 = snd ?st0 \<and> fst ?st0 \<subseteq> fst st1 \<and> set (g v) \<subseteq> fst st1 - snd st1
                     \<and> dfsInv g st1" .
      show ?thesis
      proof (cases b1)
        case True
        with r nst nvis "2.prems"(1) have "b" by simp
        with IH True show ?thesis by simp
      next
        case False
        obtain vis1 rs1 where st1: "st1 = (vis1, rs1)" by (cases st1)
        from False r nst nvis "2.prems"(1) st1 have b: "\<not> b" and st': "st' = (vis1, rs1 - {v})"
          by auto
        from IH False st1 have rs1: "rs1 = insert v recursionStack"
          and sub: "insert v visited \<subseteq> vis1"
          and succ: "set (g v) \<subseteq> vis1 - rs1" and inv1: "dfsInv g (vis1, rs1)" by auto
        have rs': "rs1 - {v} = recursionStack" using rs1 nst by auto
        let ?B1 = "vis1 - rs1"
        have B': "vis1 - recursionStack = insert v ?B1" using rs1 sub nst by auto
        from inv1 have cl1: "\<forall>b \<in> ?B1. set (g b) \<subseteq> ?B1"
          and nc1: "\<forall>b \<in> ?B1. (b, b) \<notin> ?E\<^sup>+" and ss1: "rs1 \<subseteq> vis1"
          by (simp_all add: dfsInv_def)
        have vnc: "(v, v) \<notin> ?E\<^sup>+"
        proof
          assume "(v, v) \<in> ?E\<^sup>+"
          then obtain d where d: "(v, d) \<in> ?E" and dv: "(d, v) \<in> ?E\<^sup>*"
            by (meson tranclD)
          from d have "d \<in> set (g v)" by (simp add: edgesOf_def)
          with succ have "d \<in> ?B1" by auto
          from closed_reach [OF cl1 dv this] have "v \<in> ?B1" .
          with rs1 show False by simp
        qed
        have "dfsInv g (vis1, recursionStack)"
          unfolding dfsInv_def
        proof (intro conjI)
          show "snd (vis1, recursionStack) \<subseteq> fst (vis1, recursionStack)"
            using ss1 rs1 by auto
          show "\<forall>b\<in>fst (vis1, recursionStack) - snd (vis1, recursionStack).
                  set (g b) \<subseteq> fst (vis1, recursionStack) - snd (vis1, recursionStack)"
            using cl1 succ by (auto simp: B')
          show "\<forall>b\<in>fst (vis1, recursionStack) - snd (vis1, recursionStack). (b, b) \<notin> ?E\<^sup>+"
            using nc1 vnc by (auto simp: B')
        qed
        with b st' rs' sub nst show ?thesis by auto
      qed
    qed
  qed
next
  case (3 n g st)
  then show ?case by auto
next
  case (4 n g d ds st)
  let ?E = "edgesOf g"
  from "4.prems"(1) obtain b1 st1 where r: "hasCycle n g d st = Some (b1, st1)"
    by (auto split: option.splits)
  from "4.prems"(3) have pd: "onStackPath g st d" by simp
  from "4.IH"(1) [OF r "4.prems"(2) pd]
  have IH1: "if b1 then \<exists>u. (u, u) \<in> ?E\<^sup>+
             else snd st1 = snd st \<and> fst st \<subseteq> fst st1 \<and> d \<in> fst st1 - snd st1 \<and> dfsInv g st1" .
  show ?case
  proof (cases b1)
    case True
    with r "4.prems"(1) have "b" by simp
    with IH1 True show ?thesis by simp
  next
    case False
    with r "4.prems"(1) have r2: "hasCycleFor n g ds st1 = Some (b, st')" by simp
    from IH1 False have s1: "snd st1 = snd st" "fst st \<subseteq> fst st1" "d \<in> fst st1 - snd st1"
      and inv1: "dfsInv g st1" by auto
    have p1: "\<forall>x \<in> set ds. onStackPath g st1 x"
      using "4.prems"(3) s1(1) by (simp add: onStackPath_def)
    from "4.IH"(2) [OF r refl _ r2 inv1 p1] False
    have IH2: "if b then \<exists>u. (u, u) \<in> ?E\<^sup>+
               else snd st' = snd st1 \<and> fst st1 \<subseteq> fst st' \<and> set ds \<subseteq> fst st' - snd st'
                    \<and> dfsInv g st'" by simp
    show ?thesis
    proof (cases b)
      case True
      with IH2 show ?thesis by simp
    next
      case False
      with IH2 s1 show ?thesis by auto
    qed
  qed
qed


lemma edgesOf_graphOf: "edgesOf (graphOf deps) = depEdges deps"
  by (auto simp: edgesOf_def graphOf_def depEdges_def image_iff)

lemma dfsInv_start: "dfsInv g ({}, {})"
  by (simp add: dfsInv_def)

lemma onStackPath_start: "onStackPath g (vis, {}) v"
  by (simp add: onStackPath_def)

text \<open>
  \<^verbatim>\<open>checkCircularDependencies()\<close> returns \<^verbatim>\<open>true\<close> only if the dependency list has a cycle,
  and, when every dependency starts at a task of the list, \<^verbatim>\<open>false\<close> only if it has none.
\<close>

lemma check_True_cyclic:
  assumes "checkCircularDependencies tm = Some True"
  shows "\<not> acyclic (depEdges (dependencies tm))"
proof -
  let ?g = "graphOf (dependencies tm)"
  from assms obtain st' where
    r: "hasCycleFor (Suc (length (tasks tm) + length (dependencies tm))) ?g (taskIds tm) ({}, {})
          = Some (True, st')"
    by (auto simp: checkCircularDependencies_def)
  have "\<forall>d \<in> set (taskIds tm). onStackPath ?g ({}, {}) d"
    by (simp add: onStackPath_start)
  from hasCycle_correct(2) [OF r dfsInv_start this]
  have "\<exists>u. (u, u) \<in> (edgesOf ?g)\<^sup>+" by simp
  then show ?thesis by (simp add: edgesOf_graphOf acyclic_def)
qed

lemma check_False_acyclic:
  assumes c: "checkCircularDependencies tm = Some False"
    and src: "\<forall>d \<in> set (dependencies tm). fromId d \<in> set (taskIds tm)"
  shows "acyclic (depEdges (dependencies tm))"
proof -
  let ?g = "graphOf (dependencies tm)"
  from c obtain st' where
    r: "hasCycleFor (Suc (length (tasks tm) + length (dependencies tm))) ?g (taskIds tm) ({}, {})
          = Some (False, st')"
    by (auto simp: checkCircularDependencies_def)
  have "\<forall>d \<in> set (taskIds tm). onStackPath ?g ({}, {}) d"
    by (simp add: onStackPath_start)
  from hasCycle_correct(2) [OF r dfsInv_start this]
  have roots: "set (taskIds tm) \<subseteq> fst st' - snd st'" and inv: "dfsInv ?g st'" by auto
  show ?thesis
    unfolding acyclic_def
  proof (intro allI notI)
    fix u assume cyc: "(u, u) \<in> (depEdges (dependencies tm))\<^sup>+"
    then obtain w where "(u, w) \<in> depEdges (dependencies tm)" by (meson tranclD)
    then obtain d where "d \<in> set (dependencies tm)" "fromId d = u"
      by (auto simp: depEdges_def)
    with src have "u \<in> set (taskIds tm)" by auto
    with roots have "u \<in> fst st' - snd st'" by auto
    with inv have "(u, u) \<notin> (edgesOf ?g)\<^sup>+" by (simp add: dfsInv_def)
    with cyc show False by (simp add: edgesOf_graphOf)
  qed
qed

lemma findTask_iff: "findTask tm x \<noteq> None \<longleftrightarrow> x \<in> set (taskIds tm)"
  by (auto simp: findTask_def taskIds_def find_None_iff)

lemma depEdges_snoc: "depEdges (deps @ [d]) = insert (fromId d, toId d) (depEdges deps)"
  by (auto simp: depEdges_def)

lemma find_snoc_None: "find P xs = None \<Longrightarrow> P x \<Longrightarrow> find P (xs @ [x]) = Some x"
  by (induction xs) (auto split: if_splits)

text \<open>
  What one call of \<^verbatim>\<open>createDependency\<close> does when no dependency with the same ends and
  type is in the list and both tasks exist.
\<close>

lemma createDependency_new:
  assumes rf: "findTask tm f \<noteq> None" and rt: "findTask tm t \<noteq> None"
    and new: "find (\<lambda>dep. fromId dep = f \<and> toId dep = t \<and> dtype dep = ty) (dependencies tm) = None"
  shows "\<exists>tm1 tm2.
           dependencies tm1 = dependencies tm @ [\<lparr>fromId = f, toId = t, dtype = ty, lag = lg\<rparr>]
         \<and> taskIds tm1 = taskIds tm \<and> options tm1 = options tm
         \<and> (\<forall>x. findTask tm1 x = findTask tm x)
         \<and> dependencies tm2 = dependencies tm \<and> taskIds tm2 = taskIds tm \<and> options tm2 = options tm
         \<and> createDependency tm f t ty lg =
             (if checkCircular (options tm)
              then (case checkCircularDependencies tm1 of
                      None \<Rightarrow> None
                    | Some True \<Rightarrow> Some (None, tm2)
                    | Some False \<Rightarrow> Some (Some \<lparr>fromId = f, toId = t, dtype = ty, lag = lg\<rparr>, tm1))
              else Some (Some \<lparr>fromId = f, toId = t, dtype = ty, lag = lg\<rparr>, tm1))"
proof -
  define dep where "dep = \<lparr>fromId = f, toId = t, dtype = ty, lag = lg\<rparr>"
  define tm1 where "tm1 = updateTaskDependencies (tm\<lparr>dependencies := dependencies tm @ [dep]\<rparr>)"
  define tm2 where "tm2 = updateTaskDependencies (tm1\<lparr>dependencies := butlast (dependencies tm1)\<rparr>)"
  have d1: "dependencies tm1 = dependencies tm @ [dep]"
    by (simp add: tm1_def updateTaskDependencies_frame)
  have i1: "taskIds tm1 = taskIds tm"
    by (simp add: tm1_def taskIds_def updateTaskDependencies_frame)
  have o1: "options tm1 = options tm"
    by (simp add: tm1_def updateTaskDependencies_frame)
  have f1: "\<forall>x. findTask tm1 x = findTask tm x"
    by (simp add: tm1_def findTask_def updateTaskDependencies_frame)
  have d2: "dependencies tm2 = dependencies tm"
    by (simp add: tm2_def tm1_def updateTaskDependencies_frame)
  have i2: "taskIds tm2 = taskIds tm"
    by (simp add: tm2_def tm1_def taskIds_def updateTaskDependencies_frame)
  have o2: "options tm2 = options tm"
    by (simp add: tm2_def tm1_def updateTaskDependencies_frame)
  from rf rt obtain af at where "findTask tm f = Some af" "findTask tm t = Some at" by auto
  with new o1 have cd: "createDependency tm f t ty lg =
             (if checkCircular (options tm)
              then (case checkCircularDependencies tm1 of
                      None \<Rightarrow> None
                    | Some True \<Rightarrow> Some (None, tm2)
                    | Some False \<Rightarrow> Some (Some dep, tm1))
              else Some (Some dep, tm1))"
    unfolding createDependency_def Let_def tm2_def tm1_def dep_def by simp
  from d1 i1 o1 f1 d2 i2 o2 cd show ?thesis unfolding dep_def by blast
qed

lemma createDependency_step:
  assumes on: "checkCircular (options tm)"
    and src: "\<forall>d \<in> set (dependencies tm). fromId d \<in> set (taskIds tm)"
    and ac: "acyclic (depEdges (dependencies tm))"
  shows "\<exists>res tm'. createDependency tm f t ty lg = Some (res, tm')
           \<and> options tm' = options tm \<and> taskIds tm' = taskIds tm
           \<and> (\<forall>d \<in> set (dependencies tm'). fromId d \<in> set (taskIds tm'))
           \<and> acyclic (depEdges (dependencies tm'))
           \<and> (res = None \<longrightarrow> dependencies tm' = dependencies tm)
           \<and> (\<not> acyclic (depEdges (dependencies tm @ [\<lparr>fromId = f, toId = t, dtype = ty, lag = lg\<rparr>]))
                \<longrightarrow> res = None)
           \<and> (findTask tm f \<noteq> None \<and> findTask tm t \<noteq> None
                \<and> acyclic (depEdges (dependencies tm @ [\<lparr>fromId = f, toId = t, dtype = ty, lag = lg\<rparr>]))
                \<longrightarrow> (\<exists>d. res = Some d \<and> fromId d = f \<and> toId d = t \<and> dtype d = ty
                         \<and> d \<in> set (dependencies tm')))"
proof (cases "findTask tm f = None \<or> findTask tm t = None")
  case True
  then have "createDependency tm f t ty lg = Some (None, tm)" by (simp add: createDependency_def)
  with True src ac show ?thesis by auto
next
  case ex: False
  let ?key = "\<lambda>dep. fromId dep = f \<and> toId dep = t \<and> dtype dep = ty"
  let ?dep = "\<lparr>fromId = f, toId = t, dtype = ty, lag = lg\<rparr>"
  show ?thesis
  proof (cases "find ?key (dependencies tm)")
    case (Some e)
    with ex have cd: "createDependency tm f t ty lg = Some (Some e, tm)"
      by (simp add: createDependency_def)
    from Some have e: "e \<in> set (dependencies tm)" "fromId e = f" "toId e = t" "dtype e = ty"
      by (auto simp: find_Some_iff)
    then have "(f, t) \<in> depEdges (dependencies tm)" by (force simp: depEdges_def)
    then have "depEdges (dependencies tm @ [?dep]) = depEdges (dependencies tm)"
      by (auto simp: depEdges_snoc)
    with cd e src ac show ?thesis by auto
  next
    case None
    from ex have rf: "findTask tm f \<noteq> None" and rt: "findTask tm t \<noteq> None" by auto
    from createDependency_new [OF rf rt None, of lg] on obtain tm1 tm2 where
      d1: "dependencies tm1 = dependencies tm @ [?dep]"
      and i1: "taskIds tm1 = taskIds tm" and o1: "options tm1 = options tm"
      and d2: "dependencies tm2 = dependencies tm"
      and i2: "taskIds tm2 = taskIds tm" and o2: "options tm2 = options tm"
      and cd: "createDependency tm f t ty lg =
                 (case checkCircularDependencies tm1 of
                    None \<Rightarrow> None
                  | Some True \<Rightarrow> Some (None, tm2)
                  | Some False \<Rightarrow> Some (Some ?dep, tm1))"
      by auto
    from checkCircularDependencies_total obtain b where b: "checkCircularDependencies tm1 = Some b"
      by blast
    show ?thesis
    proof (cases b)
      case True
      with b have "\<not> acyclic (depEdges (dependencies tm1))" by (simp add: check_True_cyclic)
      then have nac: "\<not> acyclic (depEdges (dependencies tm @ [?dep]))" by (simp add: d1)
      from True b have "createDependency tm f t ty lg = Some (None, tm2)" by (simp add: cd)
      with nac d2 i2 o2 src ac show ?thesis by simp
    next
      case False
      from rf have fin: "f \<in> set (taskIds tm)" using findTask_iff [of tm f] by blast
      with src have src1: "\<forall>d \<in> set (dependencies tm1). fromId d \<in> set (taskIds tm1)"
        by (auto simp: d1 i1)
      from False b have "checkCircularDependencies tm1 = Some False" by simp
      from check_False_acyclic [OF this src1] have ac1: "acyclic (depEdges (dependencies tm1))" .
      from False b have "createDependency tm f t ty lg = Some (Some ?dep, tm1)" by (simp add: cd)
      with ac1 d1 i1 o1 src1 show ?thesis by auto
    qed
  qed
qed

lemma acyclic_check:
  "acyclic (depEdges (dependencies tm)) \<Longrightarrow> checkCircularDependencies tm = Some False"
  using checkCircularDependencies_total [of tm] check_True_cyclic [of tm] by auto

lemma createDependencies_invariant:
  "checkCircular (options tm) \<Longrightarrow> \<forall>d \<in> set (dependencies tm). fromId d \<in> set (taskIds tm) \<Longrightarrow>
   acyclic (depEdges (dependencies tm)) \<Longrightarrow>
   \<exists>tm'. createDependencies tm cs = Some tm' \<and> checkCircular (options tm')
         \<and> (\<forall>d \<in> set (dependencies tm'). fromId d \<in> set (taskIds tm'))
         \<and> acyclic (depEdges (dependencies tm'))"
proof (induction cs arbitrary: tm)
  case Nil
  then show ?case by simp
next
  case (Cons c cs)
  obtain f t ty lg where c: "c = (f, t, ty, lg)" by (cases c) auto
  from createDependency_step [OF Cons.prems, of f t ty lg] obtain res tm1 where
    s: "createDependency tm f t ty lg = Some (res, tm1)" "options tm1 = options tm"
    "\<forall>d \<in> set (dependencies tm1). fromId d \<in> set (taskIds tm1)"
    "acyclic (depEdges (dependencies tm1))" by blast
  with Cons.prems have "checkCircular (options tm1)" by simp
  from Cons.IH [OF this s(3,4)] s(1) c show ?case by simp
qed

text \<open>
  C1 (as amended). On a manager whose option \<^verbatim>\<open>checkCircularDependencies\<close> is on (the
  default) and that starts with no dependencies, every sequence of \<^verbatim>\<open>createDependency\<close>
  calls returns and leaves a dependency list without a cycle, on which
  \<^verbatim>\<open>checkCircularDependencies()\<close> is \<^verbatim>\<open>false\<close>; so does any further call. A further call
  whose edge would close a cycle (the list with the new dependency appended has one)
  returns \<^verbatim>\<open>null\<close>, and a call that returns \<^verbatim>\<open>null\<close> leaves the dependency list as it
  found it: the edge is popped again. A call between two existing tasks whose edge closes
  no cycle returns a dependency with these ends and this type, which is in the list.
\<close>

theorem createDependency_acyclicity_invariant:
  assumes "checkCircular (options tm)" and "dependencies tm = []"
  shows "\<exists>tm'. createDependencies tm cs = Some tm'
           \<and> checkCircularDependencies tm' = Some False
           \<and> acyclic (depEdges (dependencies tm'))
           \<and> (\<exists>res tm''. createDependency tm' f t ty lg = Some (res, tm'')
                 \<and> checkCircularDependencies tm'' = Some False
                 \<and> acyclic (depEdges (dependencies tm''))
                 \<and> (res = None \<longrightarrow> dependencies tm'' = dependencies tm')
                 \<and> (\<not> acyclic (depEdges (dependencies tm'
                                     @ [\<lparr>fromId = f, toId = t, dtype = ty, lag = lg\<rparr>]))
                      \<longrightarrow> res = None)
                 \<and> (findTask tm' f \<noteq> None \<and> findTask tm' t \<noteq> None
                      \<and> acyclic (depEdges (dependencies tm'
                                     @ [\<lparr>fromId = f, toId = t, dtype = ty, lag = lg\<rparr>]))
                      \<longrightarrow> (\<exists>d. res = Some d \<and> fromId d = f \<and> toId d = t \<and> dtype d = ty
                               \<and> d \<in> set (dependencies tm''))))"
proof -
  from assms(2) have "\<forall>d \<in> set (dependencies tm). fromId d \<in> set (taskIds tm)"
    and "acyclic (depEdges (dependencies tm))"
    by (simp_all add: depEdges_def acyclic_def)
  from createDependencies_invariant [OF assms(1) this, of cs] obtain tm' where
    t: "createDependencies tm cs = Some tm'" "checkCircular (options tm')"
    "\<forall>d \<in> set (dependencies tm'). fromId d \<in> set (taskIds tm')"
    "acyclic (depEdges (dependencies tm'))" by blast
  from createDependency_step [OF t(2,3,4), of f t ty lg] obtain res tm'' where
    s: "createDependency tm' f t ty lg = Some (res, tm'')"
       "acyclic (depEdges (dependencies tm''))"
       "res = None \<longrightarrow> dependencies tm'' = dependencies tm'"
       "\<not> acyclic (depEdges (dependencies tm' @ [\<lparr>fromId = f, toId = t, dtype = ty, lag = lg\<rparr>]))
          \<longrightarrow> res = None"
       "findTask tm' f \<noteq> None \<and> findTask tm' t \<noteq> None
          \<and> acyclic (depEdges (dependencies tm' @ [\<lparr>fromId = f, toId = t, dtype = ty, lag = lg\<rparr>]))
          \<longrightarrow> (\<exists>d. res = Some d \<and> fromId d = f \<and> toId d = t \<and> dtype d = ty
                   \<and> d \<in> set (dependencies tm''))"
    by blast
  from t(4) have c1: "checkCircularDependencies tm' = Some False" by (rule acyclic_check)
  from s(2) have c2: "checkCircularDependencies tm'' = Some False" by (rule acyclic_check)
  from t(1,4) c1 c2 s show ?thesis by blast
qed

text \<open>
  C7 (as amended). For two tasks that exist and an edge that closes no cycle (or a manager
  whose cycle check is switched off), \<^verbatim>\<open>createDependency(A, B, type)\<close> returns a
  dependency from A to B of that type, and a second call with the same three arguments
  (whatever its lag) returns the same dependency and leaves the manager as it is; over
  the two calls the list grows by exactly one entry if no such dependency was present
  before the first call, and not at all if one was.
\<close>

theorem createDependency_idempotent:
  assumes "findTask tm f \<noteq> None" and "findTask tm t \<noteq> None"
    and "checkCircular (options tm)
           \<longrightarrow> acyclic (depEdges (dependencies tm @ [\<lparr>fromId = f, toId = t, dtype = ty, lag = lg\<rparr>]))"
  shows "\<exists>d tm1. createDependency tm f t ty lg = Some (Some d, tm1)
           \<and> fromId d = f \<and> toId d = t \<and> dtype d = ty
           \<and> createDependency tm1 f t ty lg' = Some (Some d, tm1)
           \<and> dependencyCount tm1 =
               (if find (\<lambda>dep. fromId dep = f \<and> toId dep = t \<and> dtype dep = ty) (dependencies tm) = None
                then dependencyCount tm + 1 else dependencyCount tm)"
proof -
  let ?key = "\<lambda>dep. fromId dep = f \<and> toId dep = t \<and> dtype dep = ty"
  let ?dep = "\<lparr>fromId = f, toId = t, dtype = ty, lag = lg\<rparr>"
  from assms(1,2) obtain af at where rf: "findTask tm f = Some af" and rt: "findTask tm t = Some at"
    by auto
  show ?thesis
  proof (cases "find ?key (dependencies tm)")
    case (Some e)
    then have "fromId e = f \<and> toId e = t \<and> dtype e = ty" by (auto simp: find_Some_iff)
    with Some rf rt show ?thesis by (simp add: createDependency_def)
  next
    case None
    from createDependency_new [OF assms(1,2) None, of lg] obtain tm1 tm2 where
      d1: "dependencies tm1 = dependencies tm @ [?dep]"
      and f1: "\<forall>x. findTask tm1 x = findTask tm x"
      and cd: "createDependency tm f t ty lg =
                 (if checkCircular (options tm)
                  then (case checkCircularDependencies tm1 of
                          None \<Rightarrow> None
                        | Some True \<Rightarrow> Some (None, tm2)
                        | Some False \<Rightarrow> Some (Some ?dep, tm1))
                  else Some (Some ?dep, tm1))"
      by blast
    have first: "createDependency tm f t ty lg = Some (Some ?dep, tm1)"
    proof (cases "checkCircular (options tm)")
      case True
      with assms(3) have "acyclic (depEdges (dependencies tm1))" by (simp add: d1)
      then have "checkCircularDependencies tm1 = Some False" by (rule acyclic_check)
      with True show ?thesis by (simp add: cd)
    next
      case False
      then show ?thesis by (simp add: cd)
    qed
    have "find ?key (dependencies tm1) = Some ?dep"
      unfolding d1 using None by (rule find_snoc_None) simp
    with f1 rf rt have "createDependency tm1 f t ty lg' = Some (Some ?dep, tm1)"
      by (simp add: createDependency_def)
    with first None d1 show ?thesis by (simp add: dependencyCount_def getDependencies_def)
  qed
qed

subsection \<open>The example managers are reached by the public calls\<close>

lemma twoTasksManager_reached:
  "createTasks exampleHost (newTaskManager opts) [withId (NumId 1), withId (NumId 2)]
     = Inr (twoTasksManager opts)"
  by (simp add: createTask_def withId_def noPatch_def newTaskManager_def Let_def format_def localDay_def msPerDay_def civil_days
      addDays_def exampleHost_def twoTasksManager_def plainTask_def ymd_def dayNumber_def
      numeral_2_eq_2)

lemma twoTasksManager_ids: "taskIds (twoTasksManager opts) = [NumId 1, NumId 2]"
  by (simp add: twoTasksManager_def taskIds_def plainTask_def)

text \<open>
  C1 as stated covers every TaskManager. With the option \<^verbatim>\<open>checkCircularDependencies\<close>
  switched off the check is skipped: the dependencies from 1 to 2 and from 2 to 1 both
  land, and \<^verbatim>\<open>checkCircularDependencies()\<close> is \<^verbatim>\<open>true\<close> after the second call.
\<close>

theorem createDependency_acyclicity_counterexample:
  "dependencies (twoTasksManager (defaultOptions\<lparr>checkCircular := False\<rparr>)) = []
   \<and> Option.bind
        (createDependencies (twoTasksManager (defaultOptions\<lparr>checkCircular := False\<rparr>))
           [(NumId 1, NumId 2, finish_to_start, 0), (NumId 2, NumId 1, finish_to_start, 0)])
        checkCircularDependencies = Some True"
  by (simp add: twoTasksManager_def plainTask_def createDependency_def findTask_def Let_def
      updateTaskDependencies_frame defaultOptions_def checkCircularDependencies_def
      taskIds_def graphOf_def)

lemma oneDependencyManager_reached:
  "createDependency (twoTasksManager defaultOptions) (NumId 1) (NumId 2) finish_to_start 0
     = Some (Some \<lparr>fromId = NumId 1, toId = NumId 2, dtype = finish_to_start, lag = 0\<rparr>,
             oneDependencyManager)"
  by (simp add: twoTasksManager_def plainTask_def createDependency_def findTask_def Let_def
      updateTaskDependencies_def clearTaskDependencies_def linkDependency_def
      defaultOptions_def checkCircularDependencies_def oneDependencyManager_def
      taskIds_def graphOf_def fun_upd_twist)

lemma cycle_rejected:
  "createDependency oneDependencyManager (NumId 2) (NumId 1) finish_to_start 0
     = Some (None, oneDependencyManager)"
  by (simp add: plainTask_def createDependency_def findTask_def Let_def
      updateTaskDependencies_def clearTaskDependencies_def linkDependency_def
      defaultOptions_def checkCircularDependencies_def oneDependencyManager_def
      taskIds_def graphOf_def fun_upd_twist)

lemma two_calls_one_dependency:
  "createDependencies (twoTasksManager defaultOptions)
     [(NumId 1, NumId 2, finish_to_start, 0), (NumId 2, NumId 1, finish_to_start, 0)]
   = Some oneDependencyManager"
  by (simp add: oneDependencyManager_reached cycle_rejected)

theorem createDependency_acyclicity_invariant_witness:
  "checkCircular (options (twoTasksManager defaultOptions))
   \<and> dependencies (twoTasksManager defaultOptions) = []
   \<and> createDependencies (twoTasksManager defaultOptions)
        [(NumId 1, NumId 2, finish_to_start, 0), (NumId 2, NumId 1, finish_to_start, 0)]
      = Some oneDependencyManager
   \<and> dependencies oneDependencyManager
      = [\<lparr>fromId = NumId 1, toId = NumId 2, dtype = finish_to_start, lag = 0\<rparr>]
   \<and> checkCircularDependencies oneDependencyManager = Some False
   \<and> acyclic (depEdges (dependencies oneDependencyManager))
   \<and> createDependency oneDependencyManager (NumId 2) (NumId 1) finish_to_start 0
      = Some (None, oneDependencyManager)"
proof -
  have a: "checkCircular (options (twoTasksManager defaultOptions))"
    by (simp add: twoTasksManager_def defaultOptions_def)
  have b: "dependencies (twoTasksManager defaultOptions) = []"
    by (simp add: twoTasksManager_def)
  from createDependency_acyclicity_invariant [OF a b,
      of "[(NumId 1, NumId 2, finish_to_start, 0), (NumId 2, NumId 1, finish_to_start, 0)]"
         "NumId 2" "NumId 1" finish_to_start 0]
  have c: "checkCircularDependencies oneDependencyManager = Some False
           \<and> acyclic (depEdges (dependencies oneDependencyManager))"
    unfolding two_calls_one_dependency by blast
  have d: "dependencies oneDependencyManager
           = [\<lparr>fromId = NumId 1, toId = NumId 2, dtype = finish_to_start, lag = 0\<rparr>]"
    by (simp add: oneDependencyManager_def)
  from a b c d two_calls_one_dependency cycle_rejected show ?thesis by blast
qed

lemma twoTasksManager_dependencies: "dependencies (twoTasksManager opts) = []"
  by (simp add: twoTasksManager_def)

theorem createDependency_idempotent_witness:
  "findTask (twoTasksManager defaultOptions) (NumId 1) \<noteq> None
   \<and> findTask (twoTasksManager defaultOptions) (NumId 2) \<noteq> None
   \<and> acyclic (depEdges (dependencies (twoTasksManager defaultOptions)
        @ [\<lparr>fromId = NumId 1, toId = NumId 2, dtype = finish_to_start, lag = 0\<rparr>]))
   \<and> createDependency (twoTasksManager defaultOptions) (NumId 1) (NumId 2) finish_to_start 0
     = Some (Some \<lparr>fromId = NumId 1, toId = NumId 2, dtype = finish_to_start, lag = 0\<rparr>,
             oneDependencyManager)
   \<and> createDependency oneDependencyManager (NumId 1) (NumId 2) finish_to_start 0
     = Some (Some \<lparr>fromId = NumId 1, toId = NumId 2, dtype = finish_to_start, lag = 0\<rparr>,
             oneDependencyManager)
   \<and> dependencyCount oneDependencyManager = dependencyCount (twoTasksManager defaultOptions) + 1"
proof -
  let ?tm = "twoTasksManager defaultOptions"
  let ?dep = "\<lparr>fromId = NumId 1, toId = NumId 2, dtype = finish_to_start, lag = 0\<rparr>"
  have a: "findTask ?tm (NumId 1) \<noteq> None" "findTask ?tm (NumId 2) \<noteq> None"
    by (simp_all add: twoTasksManager_def findTask_def plainTask_def)
  have e: "acyclic ({} :: (TaskId \<times> TaskId) set)" by (simp add: acyclic_def)
  have b: "acyclic (depEdges (dependencies ?tm @ [?dep]))"
    by (simp add: twoTasksManager_dependencies depEdges_def acyclic_insert e)
  then have b': "checkCircular (options ?tm) \<longrightarrow> acyclic (depEdges (dependencies ?tm @ [?dep]))"
    by simp
  from createDependency_idempotent [OF a b', of 0]
  have "createDependency oneDependencyManager (NumId 1) (NumId 2) finish_to_start 0
          = Some (Some ?dep, oneDependencyManager)
        \<and> dependencyCount oneDependencyManager = dependencyCount ?tm + 1"
    by (simp add: oneDependencyManager_reached twoTasksManager_dependencies)
  with a b oneDependencyManager_reached show ?thesis by blast
qed

text \<open>
  C7 as stated covers every pair of existing tasks. With the dependency from 1 to 2 in
  place, \<^verbatim>\<open>createDependency(2, 1)\<close> closes a cycle: both calls return \<^verbatim>\<open>null\<close> and the
  list does not grow. And two calls of \<^verbatim>\<open>createDependency(1, 2)\<close> on the same manager
  return the dependency that is already there, and the list does not grow either.
\<close>

theorem createDependency_idempotent_counterexample:
  "findTask oneDependencyManager (NumId 2) \<noteq> None
   \<and> findTask oneDependencyManager (NumId 1) \<noteq> None
   \<and> map_option fst (createDependency oneDependencyManager (NumId 2) (NumId 1) finish_to_start 0)
       = Some None
   \<and> map_option dependencyCount
        (createDependencies oneDependencyManager
           [(NumId 2, NumId 1, finish_to_start, 0), (NumId 2, NumId 1, finish_to_start, 0)])
       = Some (dependencyCount oneDependencyManager)
   \<and> map_option dependencyCount
        (createDependencies oneDependencyManager
           [(NumId 1, NumId 2, finish_to_start, 0), (NumId 1, NumId 2, finish_to_start, 0)])
       = Some (dependencyCount oneDependencyManager)"
  by (simp add: oneDependencyManager_def plainTask_def createDependency_def findTask_def Let_def
      updateTaskDependencies_frame defaultOptions_def checkCircularDependencies_def
      taskIds_def graphOf_def dependencyCount_def getDependencies_def)
subsection \<open>createTask: what it returns, and the ids\<close>

lemma generateId_least:
  "n \<le> generateId ids n \<and> NumId (generateId ids n) \<notin> set ids
   \<and> (\<forall>j. n \<le> j \<and> j < generateId ids n \<longrightarrow> NumId j \<in> set ids)"
proof (induction ids n rule: generateId.induct)
  case (1 ids n)
  show ?case
  proof (cases "NumId n \<in> set ids")
    case True
    then have eq: "generateId ids n = generateId ids (n + 1)"
      by (subst generateId.simps) simp
    from "1.IH" [OF True] have IH: "n + 1 \<le> generateId ids (n + 1)"
      "NumId (generateId ids (n + 1)) \<notin> set ids"
      "\<forall>j. n + 1 \<le> j \<and> j < generateId ids (n + 1) \<longrightarrow> NumId j \<in> set ids" by simp_all
    have "\<forall>j. n \<le> j \<and> j < generateId ids (n + 1) \<longrightarrow> NumId j \<in> set ids"
    proof (intro allI impI)
      fix j assume j: "n \<le> j \<and> j < generateId ids (n + 1)"
      show "NumId j \<in> set ids"
      proof (cases "j = n")
        case True
        with \<open>NumId n \<in> set ids\<close> show ?thesis by simp
      next
        case False
        with j have "n + 1 \<le> j" by simp
        with j IH(3) show ?thesis by simp
      qed
    qed
    with IH show ?thesis unfolding eq by simp
  next
    case False
    then have "generateId ids n = n" by (subst generateId.simps) simp
    with False show ?thesis by auto
  qed
qed

lemma updateParentTaskChildren_frame:
  "tasks (updateParentTaskChildren p tm) = tasks tm"
  "allocated (updateParentTaskChildren p tm) = allocated tm"
  "nextId (updateParentTaskChildren p tm) = nextId tm"
  "dependencies (updateParentTaskChildren p tm) = dependencies tm"
  "options (updateParentTaskChildren p tm) = options tm"
  "t_id (store (updateParentTaskChildren p tm) x) = t_id (store tm x)"
  "t_parentId (store (updateParentTaskChildren p tm) x) = t_parentId (store tm x)"
  by (simp_all add: updateParentTaskChildren_def split: option.splits)

lemma updateParentTaskChildren_taskIds:
  "taskIds (updateParentTaskChildren p tm) = taskIds tm"
  by (simp add: taskIds_def updateParentTaskChildren_frame)

lemma createTask_returns:
  "\<exists>tm'. createTask h tm d = Inr (allocated tm, tm')
         \<and> tasks tm' = tasks tm @ [allocated tm]
         \<and> allocated tm' = Suc (allocated tm)
         \<and> dependencies tm' = dependencies tm
         \<and> options tm' = options tm
         \<and> nextId tm' = (if suppliesId d then nextId tm else generateId (taskIds tm) (nextId tm))
         \<and> t_id (store tm' (allocated tm)) = chosenId tm d
         \<and> (\<forall>a. a \<noteq> allocated tm \<longrightarrow> t_id (store tm' a) = t_id (store tm a))"
proof -
  define pick where "pick =
    (case p_id d of
       Some i \<Rightarrow> if truthyId i then (i, tm)
                 else (let n = generateId (taskIds tm) (nextId tm) in (NumId n, tm\<lparr>nextId := n\<rparr>))
     | None \<Rightarrow> (let n = generateId (taskIds tm) (nextId tm) in (NumId n, tm\<lparr>nextId := n\<rparr>)))"
  have pick: "pick = (chosenId tm d,
      tm\<lparr>nextId := (if suppliesId d then nextId tm else generateId (taskIds tm) (nextId tm))\<rparr>)"
    by (cases "p_id d") (simp_all add: pick_def suppliesId_def chosenId_def Let_def)
  define tm1 where "tm1 = tm\<lparr>nextId := (if suppliesId d then nextId tm
                                        else generateId (taskIds tm) (nextId tm))\<rparr>"
  obtain newTask where
    ct: "createTask h tm d =
           Inr (allocated tm1,
                (case p_parentId d of
                   Some p \<Rightarrow> if truthyId p
                     then updateParentTaskChildren p
                            (tm1\<lparr>store := (store tm1)(allocated tm1 := newTask),
                                 allocated := Suc (allocated tm1),
                                 tasks := tasks tm1 @ [allocated tm1]\<rparr>)
                     else tm1\<lparr>store := (store tm1)(allocated tm1 := newTask),
                              allocated := Suc (allocated tm1),
                              tasks := tasks tm1 @ [allocated tm1]\<rparr>
                 | None \<Rightarrow> tm1\<lparr>store := (store tm1)(allocated tm1 := newTask),
                              allocated := Suc (allocated tm1),
                              tasks := tasks tm1 @ [allocated tm1]\<rparr>))"
    and nt: "t_id newTask = chosenId tm d"
    unfolding createTask_def pick_def [symmetric] pick tm1_def [symmetric]
    by (simp add: Let_def)
  define tm2 where "tm2 = tm1\<lparr>store := (store tm1)(allocated tm1 := newTask),
                              allocated := Suc (allocated tm1),
                              tasks := tasks tm1 @ [allocated tm1]\<rparr>"
  have tm2: "tasks tm2 = tasks tm @ [allocated tm]" "allocated tm2 = Suc (allocated tm)"
    "dependencies tm2 = dependencies tm" "options tm2 = options tm"
    "nextId tm2 = (if suppliesId d then nextId tm else generateId (taskIds tm) (nextId tm))"
    "t_id (store tm2 (allocated tm)) = chosenId tm d"
    "\<forall>a. a \<noteq> allocated tm \<longrightarrow> t_id (store tm2 a) = t_id (store tm a)"
    by (simp_all add: tm2_def tm1_def nt)
  have al: "allocated tm1 = allocated tm" by (simp add: tm1_def)
  show ?thesis
  proof (cases "p_parentId d")
    case None
    with ct have "createTask h tm d = Inr (allocated tm, tm2)" by (simp add: tm2_def al)
    with tm2 show ?thesis by blast
  next
    case (Some p)
    show ?thesis
    proof (cases "truthyId p")
      case True
      with Some ct have "createTask h tm d = Inr (allocated tm, updateParentTaskChildren p tm2)"
        by (simp add: tm2_def al)
      with tm2 show ?thesis by (simp add: updateParentTaskChildren_frame)
    next
      case False
      with Some ct have "createTask h tm d = Inr (allocated tm, tm2)" by (simp add: tm2_def al)
      with tm2 show ?thesis by blast
    qed
  qed
qed

lemma createTask_taskIds:
  assumes "wellAllocated tm" and "createTask h tm d = Inr (r, tm')"
  shows "taskIds tm' = taskIds tm @ [chosenId tm d]" and "wellAllocated tm'"
proof -
  from createTask_returns [of h tm d] assms(2) have
    r: "r = allocated tm" and t: "tasks tm' = tasks tm @ [allocated tm]"
    and al: "allocated tm' = Suc (allocated tm)"
    and nid: "t_id (store tm' (allocated tm)) = chosenId tm d"
    and old: "\<forall>a. a \<noteq> allocated tm \<longrightarrow> t_id (store tm' a) = t_id (store tm a)"
    by auto
  from assms(1) have "\<forall>a \<in> set (tasks tm). a \<noteq> allocated tm"
    by (auto simp: wellAllocated_def)
  with old have "map (\<lambda>a. t_id (store tm' a)) (tasks tm) = map (\<lambda>a. t_id (store tm a)) (tasks tm)"
    by simp
  with t nid show "taskIds tm' = taskIds tm @ [chosenId tm d]" by (simp add: taskIds_def)
  from assms(1) t al show "wellAllocated tm'" by (auto simp: wellAllocated_def)
qed

lemma idInvariant_new: "idInvariant (newTaskManager opts)"
  by (simp add: idInvariant_def wellAllocated_def newTaskManager_def taskIds_def)

lemma createTask_idInvariant:
  assumes inv: "idInvariant tm" and ct: "createTask h tm d = Inr (r, tm')"
  shows "idInvariant tm'"
proof -
  from inv have wa: "wellAllocated tm" by (simp add: idInvariant_def)
  from createTask_taskIds [OF wa ct] have ids: "taskIds tm' = taskIds tm @ [chosenId tm d]"
    and wa': "wellAllocated tm'" by simp_all
  from createTask_returns [of h tm d] ct have
    nx: "nextId tm' = (if suppliesId d then nextId tm else generateId (taskIds tm) (nextId tm))"
    by auto
  let ?g = "generateId (taskIds tm) (nextId tm)"
  from generateId_least [of "nextId tm" "taskIds tm"] have
    g: "nextId tm \<le> ?g" "\<forall>j. nextId tm \<le> j \<and> j < ?g \<longrightarrow> NumId j \<in> set (taskIds tm)"
    by simp_all
  from inv have low: "1 \<le> nextId tm" "\<forall>j. 1 \<le> j \<and> j < nextId tm \<longrightarrow> NumId j \<in> set (taskIds tm)"
    by (simp_all add: idInvariant_def)
  have "1 \<le> nextId tm'" using nx g(1) low(1) by (simp split: if_splits)
  moreover have "\<forall>j. 1 \<le> j \<and> j < nextId tm' \<longrightarrow> NumId j \<in> set (taskIds tm')"
  proof (intro allI impI)
    fix j assume j: "1 \<le> j \<and> j < nextId tm'"
    have "NumId j \<in> set (taskIds tm)"
    proof (cases "j < nextId tm")
      case True
      with j low(2) show ?thesis by simp
    next
      case False
      with j nx have "nextId tm \<le> j \<and> j < ?g" by (simp split: if_splits)
      with g(2) show ?thesis by simp
    qed
    then show "NumId j \<in> set (taskIds tm')" by (simp add: ids)
  qed
  ultimately show ?thesis using wa' by (simp add: idInvariant_def)
qed

lemma createTasks_idInvariant:
  "idInvariant tm \<Longrightarrow> \<exists>tm'. createTasks h tm ds = Inr tm' \<and> idInvariant tm'"
proof (induction ds arbitrary: tm)
  case Nil
  then show ?case by simp
next
  case (Cons d ds)
  from createTask_returns [of h tm d] obtain tm1 where
    ct: "createTask h tm d = Inr (allocated tm, tm1)" by blast
  from createTask_idInvariant [OF Cons.prems ct] have "idInvariant tm1" .
  from Cons.IH [OF this] ct show ?case by simp
qed

lemma generated_id_least_unused:
  assumes inv: "idInvariant tm" and gen: "\<not> suppliesId d"
  shows "\<exists>k. chosenId tm d = NumId k \<and> 1 \<le> k \<and> NumId k \<notin> set (taskIds tm)
            \<and> (\<forall>j. 1 \<le> j \<and> j < k \<longrightarrow> NumId j \<in> set (taskIds tm))"
proof -
  let ?g = "generateId (taskIds tm) (nextId tm)"
  from generateId_least [of "nextId tm" "taskIds tm"] have
    g: "nextId tm \<le> ?g" "NumId ?g \<notin> set (taskIds tm)"
       "\<forall>j. nextId tm \<le> j \<and> j < ?g \<longrightarrow> NumId j \<in> set (taskIds tm)"
    by simp_all
  from inv have low: "1 \<le> nextId tm" "\<forall>j. 1 \<le> j \<and> j < nextId tm \<longrightarrow> NumId j \<in> set (taskIds tm)"
    by (simp_all add: idInvariant_def)
  have "\<forall>j. 1 \<le> j \<and> j < ?g \<longrightarrow> NumId j \<in> set (taskIds tm)"
  proof (intro allI impI)
    fix j assume j: "1 \<le> j \<and> j < ?g"
    show "NumId j \<in> set (taskIds tm)"
    proof (cases "j < nextId tm")
      case True
      with j low(2) show ?thesis by simp
    next
      case False
      with j g(3) show ?thesis by simp
    qed
  qed
  with g low gen show ?thesis by (simp add: chosenId_def)
qed

lemma createTasks_distinct:
  "idInvariant tm \<Longrightarrow> distinct (taskIds tm) \<Longrightarrow> freshExplicitIds h tm ds \<Longrightarrow>
   createTasks h tm ds = Inr tm' \<Longrightarrow> distinct (taskIds tm')"
proof (induction ds arbitrary: tm)
  case Nil
  then show ?case by simp
next
  case (Cons d ds)
  from createTask_returns [of h tm d] obtain tm1 where
    ct: "createTask h tm d = Inr (allocated tm, tm1)" by blast
  from Cons.prems(1) have wa: "wellAllocated tm" by (simp add: idInvariant_def)
  from createTask_taskIds(1) [OF wa ct] have ids: "taskIds tm1 = taskIds tm @ [chosenId tm d]" .
  have fresh: "chosenId tm d \<notin> set (taskIds tm)"
  proof (cases "suppliesId d")
    case True
    with Cons.prems(3) show ?thesis
      by (auto simp: chosenId_def suppliesId_def split: option.splits)
  next
    case False
    from generated_id_least_unused [OF Cons.prems(1) False] show ?thesis by auto
  qed
  have d1: "distinct (taskIds tm1)" using ids fresh Cons.prems(2) by simp
  have f1: "freshExplicitIds h tm1 ds" using Cons.prems(3) ct by simp
  have r1: "createTasks h tm1 ds = Inr tm'" using Cons.prems(4) ct by simp
  from Cons.IH [OF createTask_idInvariant [OF Cons.prems(1) ct] d1 f1 r1] show ?case .
qed

text \<open>
  C9 (as amended). After any sequence of \<^verbatim>\<open>createTask\<close> calls on a new manager: the ids of
  the task list are pairwise distinct provided no call supplied an id that was in use at
  the time of the call (an id supplied by the caller is stored as it is, also when it
  repeats one); and the id of a further call that supplies none is the smallest positive
  integer that is not the id of a task of the list.
\<close>

theorem createTask_id_uniqueness:
  assumes run: "createTasks h (newTaskManager opts) ds = Inr tm"
  shows "(freshExplicitIds h (newTaskManager opts) ds \<longrightarrow> distinct (taskIds tm))
       \<and> (\<not> suppliesId d \<longrightarrow>
            (\<exists>r tm' k. createTask h tm d = Inr (r, tm') \<and> t_id (store tm' r) = NumId k
               \<and> 1 \<le> k \<and> NumId k \<notin> set (taskIds tm)
               \<and> (\<forall>j. 1 \<le> j \<and> j < k \<longrightarrow> NumId j \<in> set (taskIds tm))))"
proof -
  have d0: "distinct (taskIds (newTaskManager opts))"
    by (simp add: taskIds_def newTaskManager_def)
  from createTasks_idInvariant [OF idInvariant_new, of h opts ds] run have inv: "idInvariant tm"
    by simp
  have a: "freshExplicitIds h (newTaskManager opts) ds \<longrightarrow> distinct (taskIds tm)"
    using createTasks_distinct [OF idInvariant_new d0 _ run] by blast
  have b: "\<not> suppliesId d \<longrightarrow>
            (\<exists>r tm' k. createTask h tm d = Inr (r, tm') \<and> t_id (store tm' r) = NumId k
               \<and> 1 \<le> k \<and> NumId k \<notin> set (taskIds tm)
               \<and> (\<forall>j. 1 \<le> j \<and> j < k \<longrightarrow> NumId j \<in> set (taskIds tm)))"
  proof
    assume gen: "\<not> suppliesId d"
    from createTask_returns [of h tm d] obtain tm1 where
      ct: "createTask h tm d = Inr (allocated tm, tm1)"
      and nid: "t_id (store tm1 (allocated tm)) = chosenId tm d" by blast
    from generated_id_least_unused [OF inv gen] nid ct show
      "\<exists>r tm' k. createTask h tm d = Inr (r, tm') \<and> t_id (store tm' r) = NumId k
               \<and> 1 \<le> k \<and> NumId k \<notin> set (taskIds tm)
               \<and> (\<forall>j. 1 \<le> j \<and> j < k \<longrightarrow> NumId j \<in> set (taskIds tm))"
      by auto
  qed
  from a b show ?thesis by blast
qed

theorem createTask_id_uniqueness_witness:
  "createTasks exampleHost (newTaskManager defaultOptions) [withId (NumId 1), withId (NumId 2)]
     = Inr (twoTasksManager defaultOptions)
   \<and> freshExplicitIds exampleHost (newTaskManager defaultOptions) [withId (NumId 1), withId (NumId 2)]
   \<and> \<not> suppliesId noPatch
   \<and> distinct (taskIds (twoTasksManager defaultOptions))
   \<and> (\<exists>r tm'. createTask exampleHost (twoTasksManager defaultOptions) noPatch = Inr (r, tm')
         \<and> t_id (store tm' r) = NumId 3)"
proof -
  have f: "freshExplicitIds exampleHost (newTaskManager defaultOptions)
             [withId (NumId 1), withId (NumId 2)]"
    by (simp add: createTask_def withId_def noPatch_def newTaskManager_def Let_def taskIds_def)
  have s: "\<not> suppliesId noPatch" by (simp add: suppliesId_def noPatch_def)
  have g: "generateId [NumId 1, NumId 2] 1 = 3"
    by (simp add: generateId.simps)
  have n: "nextId (twoTasksManager defaultOptions) = 1" by (simp add: twoTasksManager_def)
  have c: "\<exists>r tm'. createTask exampleHost (twoTasksManager defaultOptions) noPatch = Inr (r, tm')
         \<and> t_id (store tm' r) = NumId 3"
    using createTask_returns [of exampleHost "twoTasksManager defaultOptions" noPatch] s g
    by (auto simp: chosenId_def twoTasksManager_ids n)
  note r = twoTasksManager_reached [of defaultOptions]
  from createTask_id_uniqueness [OF r, where d = noPatch] f
  have "distinct (taskIds (twoTasksManager defaultOptions))" by blast
  with r f s c show ?thesis by blast
qed

text \<open>
  C9 as stated covers calls with explicit ids: two calls with the id \<^verbatim>\<open>'a'\<close> leave two
  tasks with that id in the list.
\<close>

theorem createTask_id_uniqueness_counterexample:
  "map_sum id taskIds
     (createTasks exampleHost (newTaskManager defaultOptions)
        [withId (StrId ''a''), withId (StrId ''a'')]) = Inr [StrId ''a'', StrId ''a'']
   \<and> \<not> distinct [StrId ''a'', StrId ''a'']"
  by (simp add: createTask_def withId_def noPatch_def newTaskManager_def Let_def taskIds_def)

text \<open>
  C2. The input of the repository's test \<^verbatim>\<open>should throw error with invalid dates\<close>, on a
  new manager: \<^verbatim>\<open>createTask\<close> returns, the task is in the list, and its start is today
  (2024-01-01 for the example host). \<^verbatim>\<open>createTask\<close> returns on every input
  (\<open>createTask_returns\<close>).
\<close>

theorem createTask_invalid_date_no_error:
  "createTask exampleHost (newTaskManager defaultOptions)
     (noPatch\<lparr>p_name := Some ''Invalid Task'', p_start := Some (Text ''invalid-date''),
              p_end := Some (ymd 2024 1 5)\<rparr>)
   = Inr (0, \<lparr>store = (\<lambda>_. blankTask)
                (0 := \<lparr>t_id = NumId 1, t_name = ''Invalid Task'', t_start = ymd 2024 1 1,
                       t_end = ymd 2024 1 5, t_type = TaskT, t_progress = 0,
                       t_color = ''#4e85c5'', t_collapsed = False, t_parentId = None,
                       t_children = [], t_dependencies = [], t_dependsOn = []\<rparr>),
              allocated = 1, tasks = [0], dependencies = [], options = defaultOptions,
              nextId = 1\<rparr>)"
  by (simp add: createTask_def noPatch_def newTaskManager_def Let_def taskIds_def
      generateId.simps parseDate_def exampleHost_def format_def localDay_def msPerDay_def
      civil_days day_numbers defaultOptions_def ymd_def)

text \<open>
  C5. In the progress example the project has the two subtasks \<^verbatim>\<open>'a'\<close> (100) and \<^verbatim>\<open>'b'\<close>
  (0), whose average is 50. \<^verbatim>\<open>calculateProjectProgress('p')\<close> returns 67: the direct child
  \<^verbatim>\<open>'a'\<close> is in \<^verbatim>\<open>project.children\<close> and again in \<^verbatim>\<open>getDescendantTasks\<close>, so the sum is
  100 + 100 + 0 over three entries. The result is the same for every stack bound that
  lets the walk return.
\<close>

theorem calculateProjectProgress_counts_children_twice:
  "map_sum id (\<lambda>tm. (map (\<lambda>a. (t_id (store tm a), t_progress (store tm a))) (tasks tm),
                      calculateProjectProgress (Suc (Suc (Suc n))) tm (StrId ''p'')))
     projectExample
   = Inr ([(StrId ''p'', 0), (StrId ''a'', 100), (StrId ''b'', 0)], Some 67)
   \<and> roundDiv (100 + 0) 2 = 50"
  by (simp add: projectExample_def createTask_def noPatch_def newTaskManager_def Let_def
      updateParentTaskChildren_def findTask_def calculateProjectProgress_def
      getDescendantTasks_def roundDiv_def)

subsection \<open>deleteTask\<close>

lemma subtree_trans:
  "x \<in> subtree ts c \<Longrightarrow> c \<in> subtree ts i \<Longrightarrow> x \<in> subtree ts i"
  by (induction rule: subtree.induct) (auto intro: subtree.child)

lemma childIds_subtree: "c \<in> set (childIds ts i) \<Longrightarrow> c \<in> subtree ts i"
  by (auto simp: childIds_def intro: subtree.child subtree.root)

lemma subtree_cases:
  "x \<in> subtree ts i \<Longrightarrow> x = i \<or> (\<exists>c \<in> set (childIds ts i). x \<in> subtree ts c)"
proof (induction rule: subtree.induct)
  case root
  then show ?case by simp
next
  case (child p t)
  from child.IH show ?case
  proof
    assume "p = i"
    with child.hyps have "t_id t \<in> set (childIds ts i)" by (auto simp: childIds_def)
    then show ?thesis using subtree.root by blast
  next
    assume "\<exists>c \<in> set (childIds ts i). p \<in> subtree ts c"
    then obtain c where "c \<in> set (childIds ts i)" "p \<in> subtree ts c" by blast
    with child.hyps show ?thesis using subtree.child by blast
  qed
qed

lemma subtree_unfold:
  "subtree ts i = insert i (\<Union>c \<in> set (childIds ts i). subtree ts c)"
proof
  show "subtree ts i \<subseteq> insert i (\<Union>c \<in> set (childIds ts i). subtree ts c)"
    using subtree_cases by fastforce
  show "insert i (\<Union>c \<in> set (childIds ts i). subtree ts c) \<subseteq> subtree ts i"
    using subtree.root childIds_subtree subtree_trans by fastforce
qed

lemma collectEach_union:
  "(\<And>c acc. c \<in> set cs \<Longrightarrow> collectTasksToDelete n ts c acc = Some (acc \<union> subtree ts c)) \<Longrightarrow>
   collectEach n ts cs acc = Some (acc \<union> (\<Union>c \<in> set cs. subtree ts c))"
proof (induction cs arbitrary: acc)
  case Nil
  then show ?case by simp
next
  case (Cons c cs)
  have "collectTasksToDelete n ts c acc = Some (acc \<union> subtree ts c)"
    using Cons.prems by simp
  moreover have "collectEach n ts cs (acc \<union> subtree ts c)
                   = Some ((acc \<union> subtree ts c) \<union> (\<Union>c \<in> set cs. subtree ts c))"
    using Cons.IH Cons.prems by simp
  ultimately show ?case by (simp add: Un_assoc)
qed

lemma collect_returns:
  assumes rk: "parentRanked rank ts"
    and top: "\<And>t. t \<in> set ts \<Longrightarrow> rank (t_id t) \<le> M"
  shows "Suc M - rank i \<le> k \<Longrightarrow> k < n \<Longrightarrow>
         collectTasksToDelete n ts i acc = Some (acc \<union> subtree ts i)"
proof (induction k arbitrary: i n acc)
  case 0
  have "childIds ts i = []"
  proof (rule ccontr)
    assume "childIds ts i \<noteq> []"
    then obtain t where t: "t \<in> set ts" "t_parentId t = Some i"
      by (auto simp: childIds_def filter_empty_conv)
    with rk have "rank i < rank (t_id t)" by (auto simp: parentRanked_def)
    with top [OF t(1)] "0.prems"(1) show False by simp
  qed
  moreover from "0.prems"(2) obtain n' where "n = Suc n'" by (cases n) auto
  ultimately show ?case
    using subtree_unfold [of ts i] by (simp add: childIds_def)
next
  case (Suc k)
  from Suc.prems(2) obtain n' where n: "n = Suc n'" "k < n'" by (cases n) auto
  have each: "\<And>c acc'. c \<in> set (childIds ts i) \<Longrightarrow>
                collectTasksToDelete n' ts c acc' = Some (acc' \<union> subtree ts c)"
  proof -
    fix c acc' assume "c \<in> set (childIds ts i)"
    then obtain t where t: "t \<in> set ts" "t_parentId t = Some i" "c = t_id t"
      by (auto simp: childIds_def)
    with rk have "rank i < rank c" by (auto simp: parentRanked_def)
    moreover from top [OF t(1)] t(3) have "rank c \<le> M" by simp
    ultimately have "Suc M - rank c \<le> k" using Suc.prems(1) by simp
    from Suc.IH [OF this n(2)] show "collectTasksToDelete n' ts c acc' = Some (acc' \<union> subtree ts c)" .
  qed
  from collectEach_union [of "childIds ts i" n' ts "insert i acc", OF each]
  show ?case using subtree_unfold [of ts i] by (simp add: n childIds_def)
qed

lemma rank_bound: "\<exists>M. \<forall>t \<in> set ts. rank (t_id t) \<le> (M::nat)"
proof (induction ts)
  case Nil
  then show ?case by simp
next
  case (Cons t ts)
  then obtain M where "\<forall>t \<in> set ts. rank (t_id t) \<le> M" by blast
  then have "\<forall>u \<in> set (t # ts). rank (t_id u) \<le> max M (rank (t_id t))" by auto
  then show ?case by blast
qed

lemma collect_eventually:
  assumes "parentRanked rank ts"
  shows "\<exists>N. \<forall>n \<ge> N. collectTasksToDelete n ts i {} = Some (subtree ts i)"
proof -
  from rank_bound obtain M where M: "\<forall>t \<in> set ts. rank (t_id t) \<le> M" by blast
  have "\<forall>n \<ge> Suc (Suc M - rank i). collectTasksToDelete n ts i {} = Some (subtree ts i)"
  proof (intro allI impI)
    fix n assume "Suc (Suc M - rank i) \<le> n"
    then have "Suc M - rank i < n" by simp
    from collect_returns [OF assms, of M i "Suc M - rank i" n "{}"] M this
    show "collectTasksToDelete n ts i {} = Some (subtree ts i)" by simp
  qed
  then show ?thesis by blast
qed

lemma length_filter_split:
  "length (filter Q xs) = length (filter (\<lambda>a. Q a \<and> R a) xs) + length (filter (\<lambda>a. Q a \<and> \<not> R a) xs)"
  by (induction xs) auto

lemma length_filter_key_one:
  "distinct (map f xs) \<Longrightarrow> x \<in> set xs \<Longrightarrow> length (filter (\<lambda>a. f a = f x) xs) = 1"
proof (induction xs)
  case Nil
  then show ?case by simp
next
  case (Cons a xs)
  show ?case
  proof (cases "a = x")
    case True
    with Cons.prems have "f x \<notin> f ` set xs" by simp
    then have "\<forall>b \<in> set xs. f b \<noteq> f x" by (metis imageI)
    then have "filter (\<lambda>a. f a = f x) xs = []" by (simp add: filter_empty_conv)
    with True show ?thesis by simp
  next
    case False
    with Cons.prems have "x \<in> set xs" "f a \<noteq> f x" by auto
    with Cons.IH Cons.prems show ?thesis by simp
  qed
qed

lemma findTask_Some:
  "findTask tm x = Some r \<Longrightarrow> r \<in> set (tasks tm) \<and> t_id (store tm r) = x"
  by (auto simp: findTask_def find_Some_iff)

lemma deleteTask_unknown:
  "findTask tm taskId = None \<Longrightarrow> deleteTask n tm taskId = Some (False, tm)"
  by (simp add: deleteTask_def)

lemma deleteTask_known:
  assumes rk: "parentRanked rank (getTasks tm)" and known: "findTask tm taskId = Some r"
  shows "\<exists>N tm'. (\<forall>n \<ge> N. deleteTask n tm taskId = Some (True, tm'))
           \<and> tasks tm' = filter (\<lambda>a. t_id (store tm a) \<notin> subtree (getTasks tm) taskId) (tasks tm)
           \<and> dependencies tm' =
               filter (\<lambda>d. fromId d \<notin> subtree (getTasks tm) taskId
                          \<and> toId d \<notin> subtree (getTasks tm) taskId) (dependencies tm)
           \<and> taskIds tm' = filter (\<lambda>i. i \<notin> subtree (getTasks tm) taskId) (taskIds tm)"
proof -
  let ?S = "subtree (getTasks tm) taskId"
  from collect_eventually [OF rk, of taskId] obtain N where
    N: "\<forall>n \<ge> N. collectTasksToDelete n (getTasks tm) taskId {} = Some ?S" by blast
  define tm1 where "tm1 = tm\<lparr>dependencies :=
      filter (\<lambda>d. fromId d \<notin> ?S \<and> toId d \<notin> ?S) (dependencies tm)\<rparr>"
  define tm2 where "tm2 = tm1\<lparr>tasks := filter (\<lambda>a. t_id (store tm1 a) \<notin> ?S) (tasks tm1)\<rparr>"
  define tm' where "tm' = (case t_parentId (store tm r) of
                             Some p \<Rightarrow> if truthyId p \<and> p \<notin> ?S
                                       then updateParentTaskChildren p tm2 else tm2
                           | None \<Rightarrow> tm2)"
  have run: "\<forall>n \<ge> N. deleteTask n tm taskId = Some (True, tm')"
  proof (intro allI impI)
    fix n assume "N \<le> n"
    with N have c: "collectTasksToDelete n (getTasks tm) taskId {} = Some ?S" by simp
    show "deleteTask n tm taskId = Some (True, tm')"
      unfolding deleteTask_def known c tm'_def tm2_def tm1_def Let_def by simp
  qed
  have t2: "tasks tm2 = filter (\<lambda>a. t_id (store tm a) \<notin> ?S) (tasks tm)"
    and d2: "dependencies tm2 = filter (\<lambda>d. fromId d \<notin> ?S \<and> toId d \<notin> ?S) (dependencies tm)"
    and s2: "store tm2 = store tm"
    by (simp_all add: tm2_def tm1_def)
  have t': "tasks tm' = tasks tm2" and d': "dependencies tm' = dependencies tm2"
    and i': "\<And>x. t_id (store tm' x) = t_id (store tm2 x)"
    by (simp_all add: tm'_def updateParentTaskChildren_frame split: option.splits)
  have "taskIds tm' = filter (\<lambda>i. i \<notin> ?S) (taskIds tm)"
    by (simp add: taskIds_def t' t2 i' s2 filter_map comp_def)
  with run t' t2 d' d2 show ?thesis by auto
qed

text \<open>
  C6 (as amended). \<^verbatim>\<open>deleteTask\<close> of an unknown id returns \<^verbatim>\<open>false\<close> and changes nothing.
  For the id of a task of the list, when the \<^verbatim>\<open>parentId\<close>s form no cycle, the call
  returns \<^verbatim>\<open>true\<close> (for every stack bound from some bound on, with one and the same
  result): the tasks removed are those whose id the \<^verbatim>\<open>parentId\<close> chains reach from the
  task, the dependencies removed are those with a reached \<^verbatim>\<open>fromId\<close> or \<^verbatim>\<open>toId\<close>, and,
  when the ids of the list are pairwise distinct, the list gets shorter by one plus the
  number of descendants.
\<close>

theorem deleteTask_cascade:
  assumes rk: "parentRanked rank (getTasks tm)"
  shows "(findTask tm taskId = None \<longrightarrow> (\<forall>n. deleteTask n tm taskId = Some (False, tm)))
       \<and> (findTask tm taskId \<noteq> None \<longrightarrow>
            (\<exists>N tm'. (\<forall>n \<ge> N. deleteTask n tm taskId = Some (True, tm'))
               \<and> tasks tm' = filter (\<lambda>a. t_id (store tm a) \<notin> subtree (getTasks tm) taskId) (tasks tm)
               \<and> dependencies tm' =
                   filter (\<lambda>d. fromId d \<notin> subtree (getTasks tm) taskId
                              \<and> toId d \<notin> subtree (getTasks tm) taskId) (dependencies tm)
               \<and> taskIds tm' = filter (\<lambda>i. i \<notin> subtree (getTasks tm) taskId) (taskIds tm)
               \<and> (distinct (taskIds tm) \<longrightarrow>
                    length (getTasks tm') + (1 + length (descendantsOf (getTasks tm) taskId))
                      = length (getTasks tm))))"
proof (intro conjI impI)
  assume "findTask tm taskId = None"
  then show "\<forall>n. deleteTask n tm taskId = Some (False, tm)"
    by (simp add: deleteTask_unknown)
next
  let ?S = "subtree (getTasks tm) taskId"
  let ?id = "\<lambda>a. t_id (store tm a)"
  assume "findTask tm taskId \<noteq> None"
  then obtain r where r: "findTask tm taskId = Some r" by auto
  from deleteTask_known [OF rk r] obtain N tm' where
    run: "\<forall>n \<ge> N. deleteTask n tm taskId = Some (True, tm')"
    and t: "tasks tm' = filter (\<lambda>a. ?id a \<notin> ?S) (tasks tm)"
    and d: "dependencies tm' = filter (\<lambda>d. fromId d \<notin> ?S \<and> toId d \<notin> ?S) (dependencies tm)"
    and i: "taskIds tm' = filter (\<lambda>i. i \<notin> ?S) (taskIds tm)"
    by blast
  have count: "length (getTasks tm') + (1 + length (descendantsOf (getTasks tm) taskId))
                 = length (getTasks tm)" if dist: "distinct (taskIds tm)"
  proof -
    from findTask_Some [OF r] have rin: "r \<in> set (tasks tm)" and rid: "?id r = taskId" by simp_all
    have one: "length (filter (\<lambda>a. ?id a = taskId) (tasks tm)) = 1"
      using length_filter_key_one [of ?id "tasks tm" r] dist rin rid by (simp add: taskIds_def)
    have root: "taskId \<in> ?S" by (rule subtree.root)
    have "filter (\<lambda>a. ?id a \<in> ?S \<and> ?id a = taskId) (tasks tm)
            = filter (\<lambda>a. ?id a = taskId) (tasks tm)"
      using root by (intro filter_cong) auto
    then have inS: "length (filter (\<lambda>a. ?id a \<in> ?S) (tasks tm))
            = 1 + length (filter (\<lambda>a. ?id a \<in> ?S \<and> ?id a \<noteq> taskId) (tasks tm))"
      using length_filter_split [of "\<lambda>a. ?id a \<in> ?S" "tasks tm" "\<lambda>a. ?id a = taskId"] one
      by simp
    have desc: "length (descendantsOf (getTasks tm) taskId)
            = length (filter (\<lambda>a. ?id a \<in> ?S \<and> ?id a \<noteq> taskId) (tasks tm))"
      by (simp add: descendantsOf_def getTasks_def filter_map comp_def)
    have "length (filter (\<lambda>a. ?id a \<notin> ?S) (tasks tm)) + length (filter (\<lambda>a. ?id a \<in> ?S) (tasks tm))
            = length (tasks tm)"
      using sum_length_filter_compl [of "\<lambda>a. ?id a \<in> ?S" "tasks tm"] by simp
    with inS desc t show ?thesis by (simp add: getTasks_def)
  qed
  from run t d i count
  show "\<exists>N tm'. (\<forall>n \<ge> N. deleteTask n tm taskId = Some (True, tm'))
               \<and> tasks tm' = filter (\<lambda>a. t_id (store tm a) \<notin> subtree (getTasks tm) taskId) (tasks tm)
               \<and> dependencies tm' =
                   filter (\<lambda>d. fromId d \<notin> subtree (getTasks tm) taskId
                              \<and> toId d \<notin> subtree (getTasks tm) taskId) (dependencies tm)
               \<and> taskIds tm' = filter (\<lambda>i. i \<notin> subtree (getTasks tm) taskId) (taskIds tm)
               \<and> (distinct (taskIds tm) \<longrightarrow>
                    length (getTasks tm') + (1 + length (descendantsOf (getTasks tm) taskId))
                      = length (getTasks tm))"
    by blast
qed

lemma selfParentManager_reached:
  "createTasks exampleHost (newTaskManager defaultOptions)
     [noPatch\<lparr>p_id := Some (StrId ''a''), p_parentId := Some (StrId ''a'')\<rparr>]
   = Inr selfParentManager"
  by (simp add: createTask_def noPatch_def newTaskManager_def Let_def format_def localDay_def msPerDay_def civil_days
      addDays_def exampleHost_def selfParentManager_def plainTask_def ymd_def dayNumber_def
      updateParentTaskChildren_def findTask_def defaultOptions_def)

lemma parentChildManager_reached:
  "createTasks exampleHost (newTaskManager defaultOptions)
     [withId (StrId ''parent''),
      noPatch\<lparr>p_id := Some (StrId ''child''), p_parentId := Some (StrId ''parent'')\<rparr>]
   = Inr parentChildManager"
  by (simp add: createTask_def withId_def noPatch_def newTaskManager_def Let_def format_def localDay_def msPerDay_def civil_days
      addDays_def exampleHost_def parentChildManager_def plainTask_def ymd_def dayNumber_def
      updateParentTaskChildren_def findTask_def defaultOptions_def numeral_2_eq_2 fun_upd_twist)

lemma collect_self_parent:
  "collectTasksToDelete n (getTasks selfParentManager) (StrId ''a'') acc = None"
  by (induction n arbitrary: acc)
     (simp_all add: getTasks_def selfParentManager_def plainTask_def)

text \<open>
  C6 as stated covers every existing task. A task that is its own parent exists after one
  \<^verbatim>\<open>createTask\<close> call; \<^verbatim>\<open>deleteTask\<close> on it does not return, whatever room the stack has:
  the collection calls itself on the same id for ever.
\<close>

theorem deleteTask_cascade_counterexample:
  "findTask selfParentManager (StrId ''a'') = Some 0
   \<and> (\<forall>n. deleteTask n selfParentManager (StrId ''a'') = None)"
proof -
  have "findTask selfParentManager (StrId ''a'') = Some 0"
    by (simp add: findTask_def selfParentManager_def plainTask_def)
  then show ?thesis by (simp add: deleteTask_def collect_self_parent)
qed

theorem deleteTask_cascade_witness:
  "parentRanked childAbove (getTasks parentChildManager)
   \<and> findTask parentChildManager (StrId ''parent'') = Some 0
   \<and> distinct (taskIds parentChildManager)
   \<and> (\<exists>N tm'. (\<forall>n \<ge> N. deleteTask n parentChildManager (StrId ''parent'') = Some (True, tm'))
         \<and> getTasks tm' = [])
   \<and> (\<forall>n. deleteTask n parentChildManager (StrId ''other'') = Some (False, parentChildManager))"
proof -
  let ?M = parentChildManager
  have ts: "getTasks ?M =
      [(plainTask defaultOptions (StrId ''parent''))\<lparr>t_children := [1]\<rparr>,
       (plainTask defaultOptions (StrId ''child''))\<lparr>t_parentId := Some (StrId ''parent'')\<rparr>]"
    by (simp add: getTasks_def parentChildManager_def)
  have rk: "parentRanked childAbove (getTasks ?M)"
    by (simp add: ts parentRanked_def plainTask_def childAbove_def)
  have f: "findTask ?M (StrId ''parent'') = Some 0"
    by (simp add: findTask_def parentChildManager_def plainTask_def)
  have g: "findTask ?M (StrId ''other'') = None"
    by (simp add: findTask_def parentChildManager_def plainTask_def)
  have ids: "taskIds ?M = [StrId ''parent'', StrId ''child'']"
    by (simp add: taskIds_def parentChildManager_def plainTask_def)
  have "StrId ''child'' \<in> subtree (getTasks ?M) (StrId ''parent'')"
    using subtree.child [OF subtree.root, of
        "(plainTask defaultOptions (StrId ''child''))\<lparr>t_parentId := Some (StrId ''parent'')\<rparr>"
        "getTasks ?M" "StrId ''parent''"]
    by (simp add: ts plainTask_def)
  then have desc: "length (descendantsOf (getTasks ?M) (StrId ''parent'')) = 1"
    by (simp add: descendantsOf_def ts plainTask_def)
  from deleteTask_cascade [OF rk, of "StrId ''parent''"] f ids desc
  have a: "\<exists>N tm'. (\<forall>n \<ge> N. deleteTask n ?M (StrId ''parent'') = Some (True, tm'))
         \<and> getTasks tm' = []"
    by (auto simp: ts)
  from deleteTask_cascade [OF rk, of "StrId ''other''"] g
  have b: "\<forall>n. deleteTask n ?M (StrId ''other'') = Some (False, ?M)" by simp
  from rk f ids a b show ?thesis by simp
qed

section \<open>Properties of autoScheduleTasks\<close>









































section \<open>The bounds on the recursion depth\<close>

text \<open>
  A larger bound on the depth changes no result: what the bounded functions return is what
  the recursion of the source returns.
\<close>

lemma hasCycle_deeper:
  "hasCycle n g v st = Some r \<Longrightarrow> hasCycle (Suc n) g v st = Some r"
  "hasCycleFor n g ds st = Some r \<Longrightarrow> hasCycleFor (Suc n) g ds st = Some r"
proof (induction n g v st and n g ds st arbitrary: r and r rule: hasCycle_hasCycleFor.induct)
  case (1 g v st)
  then show ?case by simp
next
  case (2 n g v visited recursionStack)
  show ?case
  proof (cases "v \<in> recursionStack \<or> v \<in> visited")
    case True
    with "2.prems" show ?thesis by auto
  next
    case False
    with "2.prems" obtain r1 where
      r1: "hasCycleFor n g (g v) (insert v visited, insert v recursionStack) = Some r1"
      by (auto split: option.splits)
    from "2.IH" [OF _ _ r1] False
    have "hasCycleFor (Suc n) g (g v) (insert v visited, insert v recursionStack) = Some r1"
      by simp
    with r1 "2.prems" False show ?thesis by simp
  qed
next
  case (3 n g st)
  then show ?case by simp
next
  case (4 n g d ds st)
  from "4.prems" obtain b st1 where r1: "hasCycle n g d st = Some (b, st1)"
    by (auto split: option.splits)
  from "4.IH"(1) [OF r1] have s1: "hasCycle (Suc n) g d st = Some (b, st1)" .
  show ?case
  proof (cases b)
    case True
    with r1 "4.prems" have "r = (True, st1)" by auto
    with s1 True show ?thesis by simp
  next
    case False
    with r1 "4.prems" have "hasCycleFor n g ds st1 = Some r" by simp
    from "4.IH"(2) [OF r1 refl _ this] False have "hasCycleFor (Suc n) g ds st1 = Some r" by simp
    with s1 False show ?thesis by simp
  qed
qed

lemma hasCycleFor_any_depth:
  "hasCycleFor n g ds st = Some r \<Longrightarrow> hasCycleFor (n + k) g ds st = Some r"
  by (induction k) (simp_all add: hasCycle_deeper(2))

lemma checkCircularDependencies_any_depth:
  "map_option fst (hasCycleFor (Suc (length (tasks tm) + length (dependencies tm)) + k)
      (graphOf (dependencies tm)) (taskIds tm) ({}, {})) = checkCircularDependencies tm"
proof -
  from checkCircularDependencies_total [of tm] obtain r where
    "hasCycleFor (Suc (length (tasks tm) + length (dependencies tm)))
       (graphOf (dependencies tm)) (taskIds tm) ({}, {})  = Some r"
    by (auto simp: checkCircularDependencies_def)
  with hasCycleFor_any_depth [OF this, of k] show ?thesis
    by (simp add: checkCircularDependencies_def)
qed

lemma visit_deeper:
  "visit n deps tm v st = Some r \<Longrightarrow> visit (Suc n) deps tm v st = Some r"
  "visitEach n deps tm ps st = Some r \<Longrightarrow> visitEach (Suc n) deps tm ps st = Some r"
proof (induction n deps tm v st and n deps tm ps st arbitrary: r and r rule: visit_visitEach.induct)
  case (1 deps taskMap taskId st)
  then show ?case by simp
next
  case (2 n deps taskMap taskId visited result)
  show ?case
  proof (cases "taskId \<in> visited")
    case True
    with "2.prems" have "r = (visited, result)" by auto
    with True show ?thesis by simp
  next
    case False
    with "2.prems" obtain r1 where
      r1: "visitEach n deps taskMap (predecessors deps taskId) (insert taskId visited, result) = Some r1"
      by (auto split: option.splits)
    from "2.IH" [OF False r1]
    have "visitEach (Suc n) deps taskMap (predecessors deps taskId) (insert taskId visited, result) = Some r1" .
    with r1 "2.prems" False show ?thesis by simp
  qed
next
  case (3 n deps taskMap st)
  then show ?case by simp
next
  case (4 n deps taskMap p ps st)
  from "4.prems" obtain st1 where r1: "visit n deps taskMap p st = Some st1"
    by (auto split: option.splits)
  from "4.IH"(1) [OF r1] have s1: "visit (Suc n) deps taskMap p st = Some st1" .
  from r1 "4.prems" have "visitEach n deps taskMap ps st1 = Some r" by simp
  from "4.IH"(2) [OF r1 this] have "visitEach (Suc n) deps taskMap ps st1 = Some r" .
  with s1 show ?case by simp
qed

lemma visitEach_any_depth:
  "visitEach n deps tm ps st = Some r \<Longrightarrow> visitEach (n + k) deps tm ps st = Some r"
  by (induction k) (simp_all add: visit_deeper(2))

lemma visit_visited_mono:
  "visit n deps tm v st = Some st' \<Longrightarrow> fst st \<subseteq> fst st'"
  "visitEach n deps tm ps st = Some st' \<Longrightarrow> fst st \<subseteq> fst st'"
proof (induction n deps tm v st and n deps tm ps st arbitrary: st' and st'
       rule: visit_visitEach.induct)
  case (1 deps taskMap taskId st)
  then show ?case by simp
next
  case (2 n deps taskMap taskId visited result)
  show ?case
  proof (cases "taskId \<in> visited")
    case True
    with "2.prems" show ?thesis by auto
  next
    case False
    with "2.prems" obtain st1 where
      r1: "visitEach n deps taskMap (predecessors deps taskId) (insert taskId visited, result) = Some st1"
      and eq: "fst st' = fst st1"
      by (auto split: option.splits prod.splits)
    from "2.IH" [OF False r1] eq show ?thesis by auto
  qed
next
  case (3 n deps taskMap st)
  then show ?case by simp
next
  case (4 n deps taskMap p ps st)
  from "4.prems" obtain st1 where r1: "visit n deps taskMap p st = Some st1"
    by (auto split: option.splits)
  with "4.prems" have r2: "visitEach n deps taskMap ps st1 = Some st'" by simp
  from "4.IH"(1) [OF r1] "4.IH"(2) [OF r1 r2] show ?case by auto
qed

lemma visitEach_total_step:
  assumes fin: "finite U"
    and V: "\<And>v st. v \<in> U \<Longrightarrow> card (U - fst st) < n \<Longrightarrow> visit n deps tm v st \<noteq> None"
  shows "set ps \<subseteq> U \<Longrightarrow> card (U - fst st) < n \<Longrightarrow> visitEach n deps tm ps st \<noteq> None"
proof (induction ps arbitrary: st)
  case Nil
  then show ?case by simp
next
  case (Cons p ps)
  from Cons.prems have "p \<in> U" by simp
  from V [OF this Cons.prems(2)] obtain st1 where r: "visit n deps tm p st = Some st1" by auto
  from visit_visited_mono(1) [OF r] have "U - fst st1 \<subseteq> U - fst st" by auto
  with fin have "card (U - fst st1) \<le> card (U - fst st)" by (simp add: card_mono)
  with Cons.prems have c: "card (U - fst st1) < n" by simp
  from Cons.prems have "set ps \<subseteq> U" by simp
  from Cons.IH [OF this c] r show ?case by simp
qed

lemma visit_total:
  assumes fin: "finite U" and closed: "\<And>u. set (predecessors deps u) \<subseteq> U"
  shows "v \<in> U \<Longrightarrow> card (U - fst st) < n \<Longrightarrow> visit n deps tm v st \<noteq> None"
proof (induction n arbitrary: v st)
  case 0
  then show ?case by simp
next
  case (Suc n)
  obtain vis res where st: "st = (vis, res)" by (cases st)
  show ?case
  proof (cases "v \<in> vis")
    case True
    with st show ?thesis by simp
  next
    case False
    with Suc.prems st have vin: "v \<in> U - vis" by simp
    have "U - insert v vis = (U - vis) - {v}" by auto
    with fin vin have "card (U - insert v vis) = card (U - vis) - 1" by simp
    moreover from fin vin have "card (U - vis) > 0" by (metis card_gt_0_iff empty_iff finite_Diff)
    ultimately have c: "card (U - fst (insert v vis, res)) < n" using Suc.prems(2) st by simp
    have "visitEach n deps tm (predecessors deps v) (insert v vis, res) \<noteq> None"
      by (rule visitEach_total_step [OF fin Suc.IH closed c])
    with False st show ?thesis by (auto split: option.splits)
  qed
qed

lemma autoScheduleTasks_total: "\<exists>out. autoScheduleTasks h ts deps = Some out"
proof -
  let ?U = "set (map t_id ts) \<union> set (map fromId deps)"
  have fin: "finite ?U" by simp
  have closed: "\<And>u. set (predecessors deps u) \<subseteq> ?U" by (auto simp: predecessors_def)
  have "card ?U \<le> card (set (map t_id ts)) + card (set (map fromId deps))" by (rule card_Un_le)
  also have "\<dots> \<le> length (map t_id ts) + length (map fromId deps)"
    by (intro add_mono card_length)
  finally have c: "card (?U - fst ({}::TaskId set, []::TaskId list)) < Suc (length ts + length deps)"
    by simp
  have sub: "set (map t_id ts) \<subseteq> ?U" by auto
  have "visitEach (Suc (length ts + length deps)) deps (taskMapOf ts) (map t_id ts) ({}, []) \<noteq> None"
    using fin visit_total [OF fin closed] sub c by (rule visitEach_total_step)
  then show ?thesis by (auto simp: autoScheduleTasks_def Let_def)
qed

end
